theory Spec2Isabelle
  imports Main
begin

section \<open>JavaScript values and objects\<close>

text \<open>
  The values a document body or a query argument can hold. Numbers are integers
  (document counts, limits and the test data of the repository are integral); a JavaScript
  object is the list of its own enumerable properties in enumeration order.
\<close>

datatype jsval =
    JUndefined
  | JNull
  | JBool bool
  | JNum int
  | JStr string
  | JArr "jsval list"
  | JObj "(string \<times> jsval) list"

type_synonym jsobj = "(string \<times> jsval) list"

text \<open>
  Own property keys of an ordinary object are enumerated array indices first, in ascending
  numeric order, then the other string keys in insertion order. An array index is a
  canonical numeric string whose value is at most \<open>2^32 - 2\<close>.
\<close>

definition is_digit :: "char \<Rightarrow> bool" where
  "is_digit c = (c \<in> set ''0123456789'')"

definition digit_val :: "char \<Rightarrow> int" where
  "digit_val c = of_char c - 48"

definition index_val :: "string \<Rightarrow> int" where
  "index_val s = foldl (\<lambda>n c. 10 * n + digit_val c) 0 s"

definition is_array_index :: "string \<Rightarrow> bool" where
  "is_array_index s =
     (s \<noteq> [] \<and> list_all is_digit s \<and> (s = ''0'' \<or> hd s \<noteq> CHR ''0'')
      \<and> index_val s \<le> 4294967294)"

fun insert_index :: "string \<Rightarrow> jsval \<Rightarrow> jsobj \<Rightarrow> jsobj" where
  "insert_index k v [] = [(k, v)]"
| "insert_index k v ((k', v') # r) =
     (if is_array_index k' \<and> index_val k' < index_val k
      then (k', v') # insert_index k v r
      else (k, v) # (k', v') # r)"

fun update_key :: "string \<Rightarrow> jsval \<Rightarrow> jsobj \<Rightarrow> jsobj" where
  "update_key k v [] = []"
| "update_key k v ((k', v') # r) =
     (if k' = k then (k, v) # r else (k', v') # update_key k v r)"

text \<open>The assignment \<open>obj[k] = v\<close>.\<close>

definition js_set :: "jsobj \<Rightarrow> string \<Rightarrow> jsval \<Rightarrow> jsobj" where
  "js_set obj k v =
     (if k \<in> fst ` set obj then update_key k v obj
      else if is_array_index k then insert_index k v obj
      else obj @ [(k, v)])"

text \<open>The property read \<open>obj[k]\<close>: \<open>undefined\<close> when the key is absent.\<close>

definition js_prop :: "jsobj \<Rightarrow> string \<Rightarrow> jsval" where
  "js_prop obj k = (case map_of obj k of None \<Rightarrow> JUndefined | Some v \<Rightarrow> v)"

text \<open>
  The enumeration order of a well-formed object: no key twice, the array indices first
  and ascending, no array index after another key.
\<close>

definition key_before :: "string \<Rightarrow> string \<Rightarrow> bool" where
  "key_before k k' =
     (if is_array_index k' then is_array_index k \<and> index_val k < index_val k' else True)"

definition js_object :: "jsobj \<Rightarrow> bool" where
  "js_object obj = (distinct (map fst obj) \<and> sorted_wrt key_before (map fst obj))"

definition truthy :: "jsval \<Rightarrow> bool" where
  "truthy v =
     (case v of
        JUndefined \<Rightarrow> False
      | JNull \<Rightarrow> False
      | JBool b \<Rightarrow> b
      | JNum n \<Rightarrow> n \<noteq> 0
      | JStr s \<Rightarrow> s \<noteq> []
      | JArr _ \<Rightarrow> True
      | JObj _ \<Rightarrow> True)"

section \<open>The lodash helpers the query engine calls\<close>

text \<open>
  Modelled from the spec: the repository's \<open>./lodash\<close> module is not among the sources.
  Values are immutable here, so a deep copy of a value is the value.
\<close>

definition cloneDeep :: "jsval \<Rightarrow> jsval" where
  "cloneDeep v = v"

text \<open>
  Modelled from the spec: \<open>utils.cloneCustomizer\<close> is not among the sources; the spec has each
  included record's value deep-copied into the result.
\<close>

definition cloneDeepWith :: "jsval \<Rightarrow> jsval" where
  "cloneDeepWith v = v"

text \<open>
  Modelled from the spec: deep equality. Arrays are compared element by element, objects
  property by property whatever the order of their keys.
\<close>

fun isEqual :: "jsval \<Rightarrow> jsval \<Rightarrow> bool"
  and isEqual_list :: "jsval list \<Rightarrow> jsval list \<Rightarrow> bool"
  and isEqual_props :: "jsobj \<Rightarrow> jsobj \<Rightarrow> bool" where
  "isEqual JUndefined w = (w = JUndefined)"
| "isEqual JNull w = (w = JNull)"
| "isEqual (JBool b) w = (w = JBool b)"
| "isEqual (JNum n) w = (w = JNum n)"
| "isEqual (JStr s) w = (w = JStr s)"
| "isEqual (JArr xs) w = (case w of JArr ys \<Rightarrow> isEqual_list xs ys | _ \<Rightarrow> False)"
| "isEqual (JObj ps) w =
     (case w of JObj qs \<Rightarrow> length ps = length qs \<and> isEqual_props ps qs | _ \<Rightarrow> False)"
| "isEqual_list [] ys = (ys = [])"
| "isEqual_list (x # xs) ys =
     (case ys of [] \<Rightarrow> False | y # ys' \<Rightarrow> isEqual x y \<and> isEqual_list xs ys')"
| "isEqual_props [] qs = True"
| "isEqual_props (p # ps) qs =
     ((case map_of qs (fst p) of None \<Rightarrow> False | Some w \<Rightarrow> isEqual (snd p) w)
      \<and> isEqual_props ps qs)"

text \<open>The member read \<open>value[key]\<close> on any value (own properties only).\<close>

definition member :: "jsval \<Rightarrow> string \<Rightarrow> jsval" where
  "member v k =
     (case v of
        JObj ps \<Rightarrow> js_prop ps k
      | JArr xs \<Rightarrow>
          (if k = ''length'' then JNum (int (length xs))
           else if is_array_index k \<and> index_val k < int (length xs) then xs ! nat (index_val k)
           else JUndefined)
      | JStr s \<Rightarrow>
          (if k = ''length'' then JNum (int (length s))
           else if is_array_index k \<and> index_val k < int (length s) then JStr [s ! nat (index_val k)]
           else JUndefined)
      | _ \<Rightarrow> JUndefined)"

text \<open>
  Modelled from the spec: a path string is dot-addressed; array-index segments in
  brackets are not specially handled.
\<close>

fun stringToPath :: "string \<Rightarrow> string list" where
  "stringToPath [] = [[]]"
| "stringToPath (c # cs) =
     (if c = CHR ''.'' then [] # stringToPath cs
      else (case stringToPath cs of [] \<Rightarrow> [[c]] | s # r \<Rightarrow> (c # s) # r))"

fun baseGet :: "jsval \<Rightarrow> string list \<Rightarrow> jsval" where
  "baseGet v [] = v"
| "baseGet v (k # ks) =
     (case v of
        JUndefined \<Rightarrow> JUndefined
      | JNull \<Rightarrow> JUndefined
      | _ \<Rightarrow> baseGet (member v k) ks)"

text \<open>
  \<open>_.get(object, path)\<close>: a path that is itself an own key of the object is one segment.
\<close>

definition lodash_get :: "jsval \<Rightarrow> string \<Rightarrow> jsval" where
  "lodash_get object p =
     (case object of
        JObj ps \<Rightarrow> (if p \<in> fst ` set ps then js_prop ps p else baseGet object (stringToPath p))
      | _ \<Rightarrow> baseGet object (stringToPath p))"

text \<open>\<open>===\<close>: primitives by value; two separately built arrays or objects are never identical.\<close>

definition strict_eq :: "jsval \<Rightarrow> jsval \<Rightarrow> bool" where
  "strict_eq v w =
     (case v of JArr _ \<Rightarrow> False | JObj _ \<Rightarrow> False | _ \<Rightarrow> v = w)"

fun is_substring :: "string \<Rightarrow> string \<Rightarrow> bool" where
  "is_substring s [] = (s = [])"
| "is_substring s (c # cs) = (take (length s) (c # cs) = s \<or> is_substring s cs)"

text \<open>
  Modelled from the spec: \<open>_.includes(collection, value)\<close> searches the elements of an array,
  the property values of an object, or a string for a substring.
\<close>

definition lodash_includes :: "jsval \<Rightarrow> jsval \<Rightarrow> bool" where
  "lodash_includes collection v =
     (case collection of
        JArr xs \<Rightarrow> list_ex (\<lambda>x. strict_eq x v) xs
      | JObj ps \<Rightarrow> list_ex (\<lambda>x. strict_eq x v) (map snd ps)
      | JStr s \<Rightarrow> (case v of JStr t \<Rightarrow> is_substring t s | _ \<Rightarrow> False)
      | _ \<Rightarrow> False)"

text \<open>\<open>_.size\<close> of the data of a query: \<open>null\<close> has size 0, an object the number of its keys.\<close>

definition lodash_size :: "jsobj option \<Rightarrow> nat" where
  "lodash_size d = (case d of None \<Rightarrow> 0 | Some obj \<Rightarrow> length obj)"

text \<open>
  JavaScript's \<open><\<close> on two values: two strings by their code units, otherwise both sides as
  numbers (\<open>null\<close> is 0, \<open>true\<close> is 1, \<open>undefined\<close> is not a number). The numeric reading of a
  string, an array or an object against a number is not followed: such a pair is unordered.
\<close>

fun string_less :: "string \<Rightarrow> string \<Rightarrow> bool" where
  "string_less s [] = False"
| "string_less [] (d # t) = True"
| "string_less (c # s) (d # t) =
     ((of_char c :: nat) < of_char d \<or> (c = d \<and> string_less s t))"

definition to_number :: "jsval \<Rightarrow> int option" where
  "to_number v =
     (case v of
        JNum n \<Rightarrow> Some n
      | JBool b \<Rightarrow> Some (if b then 1 else 0)
      | JNull \<Rightarrow> Some 0
      | _ \<Rightarrow> None)"

definition js_lt :: "jsval \<Rightarrow> jsval \<Rightarrow> bool" where
  "js_lt v w =
     (case (v, w) of
        (JStr s, JStr t) \<Rightarrow> string_less s t
      | _ \<Rightarrow>
          (case (to_number v, to_number w) of
             (Some m, Some n) \<Rightarrow> m < n
           | _ \<Rightarrow> False))"

text \<open>
  Modelled from the spec: the comparison of two sort-key values inside \<open>_.orderBy\<close>; \<open>null\<close>
  sorts after every other defined value and \<open>undefined\<close> last.
\<close>

definition compareAscending :: "jsval \<Rightarrow> jsval \<Rightarrow> int" where
  "compareAscending v w =
     (if strict_eq v w then 0
      else if (w \<noteq> JNull \<and> js_lt w v) \<or> (v = JNull \<and> w \<noteq> JUndefined) \<or> v = JUndefined
      then 1
      else if (v \<noteq> JNull \<and> js_lt v w) \<or> (w = JNull \<and> v \<noteq> JUndefined) \<or> w = JUndefined
      then - 1
      else 0)"

fun compareMultiple :: "jsval list \<Rightarrow> jsval list \<Rightarrow> string list \<Rightarrow> int" where
  "compareMultiple (a # as) (b # bs) orders =
     (let r = compareAscending a b in
      if r \<noteq> 0
      then (case orders of [] \<Rightarrow> r | ord # _ \<Rightarrow> if ord = ''desc'' then - r else r)
      else compareMultiple as bs (tl orders))"
| "compareMultiple _ _ orders = 0"

text \<open>
  Modelled from the spec: \<open>_.orderBy\<close> is a stable sort by the declared keys and directions.
  An element is placed before the first later element it does not come after, so that
  elements the comparison takes for equal stay in their order.
\<close>

fun insert_by :: "('a \<Rightarrow> 'a \<Rightarrow> int) \<Rightarrow> 'a \<Rightarrow> 'a list \<Rightarrow> 'a list" where
  "insert_by cmp x [] = [x]"
| "insert_by cmp x (y # ys) =
     (if cmp x y \<le> 0 then x # y # ys else y # insert_by cmp x ys)"

definition stable_sort_by :: "('a \<Rightarrow> 'a \<Rightarrow> int) \<Rightarrow> 'a list \<Rightarrow> 'a list" where
  "stable_sort_by cmp xs = foldr (insert_by cmp) xs []"

text \<open>A record handed to the sort and to the equality filter: \<open>{ data: data, key: key }\<close>.\<close>

definition queryable :: "string \<times> jsval \<Rightarrow> jsval" where
  "queryable r = JObj [(''data'', snd r), (''key'', JStr (fst r))]"

definition criteria :: "string list \<Rightarrow> string \<times> jsval \<Rightarrow> jsval list" where
  "criteria paths r = map (lodash_get (queryable r)) paths"

definition lodash_orderBy ::
  "(string \<times> jsval) list \<Rightarrow> string list \<Rightarrow> string list \<Rightarrow> (string \<times> jsval) list" where
  "lodash_orderBy rs paths orders =
     stable_sort_by (\<lambda>a b. compareMultiple (criteria paths a) (criteria paths b) orders) rs"

section \<open>Queries, the shared queue and the store of objects\<close>

text \<open>
  A property handed to \<open>where\<close> or \<open>orderBy\<close>: the document-id sentinel
  \<open>FieldPath.documentId()\<close>, another \<open>FieldPath\<close> with its segments, or a string.
\<close>

datatype property = DocumentId | FieldPath "string list" | Property string

fun join_dots :: "string list \<Rightarrow> string" where
  "join_dots [] = []"
| "join_dots [s] = s"
| "join_dots (s # t # r) = s @ ''.'' @ join_dots (t # r)"

definition getPropertyPath :: "property \<Rightarrow> string" where
  "getPropertyPath p =
     (case p of
        DocumentId \<Rightarrow> ''key''
      | FieldPath segs \<Rightarrow> ''data.'' @ join_dots segs
      | Property s \<Rightarrow> ''data.'' @ s)"

text \<open>The auto-flush setting: \<open>false\<close>, \<open>true\<close> or a number of milliseconds.\<close>

datatype flush_delay = DelayFalse | DelayTrue | DelayMs int

text \<open>
  The fields of a \<open>MockFirestoreQuery\<close>. Objects live in a store and refer to each other by
  address: \<open>queue\<close> is the address of the shared queue, \<open>parent\<close> and \<open>children\<close> hold addresses
  of objects. \<open>buildStartFinder\<close> is the constructor's constant-true finder (\<open>None\<close>) or the
  finder of \<open>startAfter\<close>, closed over \<open>doc.ref.id\<close>. The source's field \<open>id\<close> is \<open>ident\<close>.
\<close>

record query =
  errs :: jsobj
  path :: string
  ident :: "string option"
  flushDelay :: flush_delay
  queue :: nat
  parent :: "nat option"
  firestore :: "nat option"
  children :: "(string \<times> nat) list"
  orderedProperties :: "property list"
  orderedDirections :: "string list"
  limited :: int
  buildStartFinder :: "string option"
  data :: "jsobj option"

text \<open>
  Modelled from the spec: the result wrapper built from the owning collection reference,
  the result mapping and the previous state; all three are optional arguments.
\<close>

datatype snapshot_owner = Self nat | CollectionOf nat "string option"

datatype query_snapshot = QuerySnapshot snapshot_owner "jsobj option" "jsobj option"

datatype outcome = Resolved query_snapshot | Rejected jsval

text \<open>
  A promise returned by \<open>get\<close>: how it was settled, and the subscription whose
  \<open>then\<close>-callback waits for it, if any.
\<close>

record promise =
  settled :: "outcome option"
  then_sub :: "nat option"

text \<open>The unit of work \<open>get\<close> defers: the query, the error taken at call time, the promise.\<close>

datatype task = GetTask nat jsval nat

text \<open>
  Modelled from the spec: the shared queue (\<open>./queue\<close> is not among the sources) holds the
  deferred work in order and the handlers to run after every flush.
\<close>

record flush_queue =
  events :: "task list"
  postFlush :: "nat list"

text \<open>
  The closure \<open>onSnapshot\<close> registers: the query, the error taken at subscription time, the
  metadata-changes flag and \<open>context.data\<close>.
\<close>

record subscription =
  sub_query :: nat
  sub_err :: jsval
  includeMetadataChanges :: bool
  context_data :: jsobj

datatype callback = OnNext nat query_snapshot | OnError nat jsval

record world =
  objs :: "query list"
  queues :: "flush_queue list"
  promises :: "promise list"
  subs :: "subscription list"
  console :: "string list"
  calls :: "callback list"

definition deref :: "world \<Rightarrow> nat \<Rightarrow> query" where
  "deref w a = objs w ! a"

definition valid_ref :: "world \<Rightarrow> nat \<Rightarrow> bool" where
  "valid_ref w a = (a < length (objs w))"

definition store :: "world \<Rightarrow> nat \<Rightarrow> query \<Rightarrow> world" where
  "store w a q = w\<lparr>objs := (objs w)[a := q]\<rparr>"

datatype error = Error string

section \<open>Construction and the builder calls\<close>

text \<open>\<open>extractName\<close>: the text after the last slash, when it is not empty and has none of \<open>.$[]#\<close>.\<close>

definition extractName :: "string option \<Rightarrow> string option" where
  "extractName p =
     (let s = (case p of None \<Rightarrow> [] | Some t \<Rightarrow> t);
          seg = rev (takeWhile (\<lambda>c. c \<noteq> CHR ''/'') (rev s))
      in if CHR ''/'' \<in> set s \<and> seg \<noteq> [] \<and> list_all (\<lambda>c. c \<notin> set ''.$[]#'') seg
         then Some seg else None)"

text \<open>
  Modelled from the spec: \<open>utils.cleanFirestoreData\<close> is not among the sources; the spec has
  the data only copied on construction.
\<close>

definition cleanFirestoreData :: "jsobj option \<Rightarrow> jsobj option" where
  "cleanFirestoreData d = d"

text \<open>\<open>_setData\<close> on a query value, and \<open>_getData\<close>.\<close>

definition setData :: "query \<Rightarrow> jsobj option \<Rightarrow> query" where
  "setData q d = q\<lparr>data := cleanFirestoreData d\<rparr>"

definition getData :: "query \<Rightarrow> jsobj option" where
  "getData q = data q"

text \<open>
  \<open>new MockFirestoreQuery(path, data, parent, name)\<close>: the new object is stored at the next free
  address; without a parent a new queue is created as well.
\<close>

definition MockFirestoreQuery ::
  "world \<Rightarrow> string option \<Rightarrow> jsobj option \<Rightarrow> nat option \<Rightarrow> string option \<Rightarrow> world \<times> nat" where
  "MockFirestoreQuery w p d par name =
     (let q = setData
           \<lparr>errs = [],
            path = (case p of None \<Rightarrow> ''Mock://'' | Some t \<Rightarrow> if t = [] then ''Mock://'' else t),
            ident = (case par of None \<Rightarrow> extractName p | Some _ \<Rightarrow> name),
            flushDelay = (case par of None \<Rightarrow> DelayFalse | Some pa \<Rightarrow> flushDelay (deref w pa)),
            queue = (case par of None \<Rightarrow> length (queues w) | Some pa \<Rightarrow> queue (deref w pa)),
            parent = par,
            firestore = (case par of None \<Rightarrow> None | Some pa \<Rightarrow> firestore (deref w pa)),
            children = [],
            orderedProperties = [],
            orderedDirections = [],
            limited = 0,
            buildStartFinder = None,
            data = None\<rparr> d;
          w1 = (case par of
                  None \<Rightarrow> w\<lparr>queues := queues w @ [\<lparr>events = [], postFlush = []\<rparr>]\<rparr>
                | Some _ \<Rightarrow> w)
      in (w1\<lparr>objs := objs w1 @ [q]\<rparr>, length (objs w)))"

definition clone :: "world \<Rightarrow> nat \<Rightarrow> world \<times> nat" where
  "clone w a =
     (let this = deref w a;
          (w1, b) = MockFirestoreQuery w (Some (path this)) (getData this) (parent this) (ident this)
      in (store w1 b ((deref w1 b)
            \<lparr>orderedProperties := orderedProperties this,
             orderedDirections := orderedDirections this,
             limited := limited this,
             buildStartFinder := buildStartFinder this\<rparr>), b))"

text \<open>
  \<open>_.get(data, property)\<close> of the containment filters takes the property as it was given; a
  field-path object is not a path lodash resolves.
\<close>

definition get_raw :: "jsval \<Rightarrow> property \<Rightarrow> jsval" where
  "get_raw d p = (case p of Property s \<Rightarrow> lodash_get d s | _ \<Rightarrow> JUndefined)"

text \<open>The \<open>switch\<close> of \<open>where\<close>: is the record copied into the results?\<close>

definition where_match :: "property \<Rightarrow> string \<Rightarrow> jsval \<Rightarrow> string \<times> jsval \<Rightarrow> bool" where
  "where_match p operator v r =
     (if operator = ''=='' then isEqual (lodash_get (queryable r) (getPropertyPath p)) v
      else if operator = ''array-contains'' then lodash_includes (get_raw (snd r) p) v
      else if operator = ''in'' then lodash_includes v (get_raw (snd r) p)
      else True)"

definition where_results :: "property \<Rightarrow> string \<Rightarrow> jsval \<Rightarrow> jsobj \<Rightarrow> jsobj" where
  "where_results p operator v d =
     foldl (\<lambda>results r.
        if where_match p operator v r then js_set results (fst r) (cloneDeep (snd r))
        else results) [] d"

definition unsupported_where :: string where
  "unsupported_where =
     ''Using unsupported where() operator for firebase-mock, returning entire dataset''"

definition "where" :: "world \<Rightarrow> nat \<Rightarrow> property \<Rightarrow> string \<Rightarrow> jsval \<Rightarrow> world \<times> nat" where
  "where w a p operator v =
     (let (w1, b) = clone w a;
          this = deref w1 a
      in if operator \<noteq> ''=='' \<and> operator \<noteq> ''array-contains'' \<and> operator \<noteq> ''in''
         then (w1\<lparr>console := console w1 @ [unsupported_where]\<rparr>, b)
         else if lodash_size (data this) \<noteq> 0
         then (store w1 b (setData (deref w1 b)
                 (Some (where_results p operator v (case data this of None \<Rightarrow> [] | Some d \<Rightarrow> d)))), b)
         else (store w1 b (setData (deref w1 b) None), b))"

definition orderBy :: "world \<Rightarrow> nat \<Rightarrow> property \<Rightarrow> string option \<Rightarrow> world \<times> nat" where
  "orderBy w a p direction =
     (let (w1, b) = clone w a;
          q = deref w1 b
      in (store w1 b (q
            \<lparr>orderedProperties := orderedProperties q @ [p],
             orderedDirections := orderedDirections q @
               [case direction of None \<Rightarrow> ''asc'' | Some dir \<Rightarrow> if dir = [] then ''asc'' else dir]\<rparr>), b))"

definition limit :: "world \<Rightarrow> nat \<Rightarrow> int \<Rightarrow> world \<times> nat" where
  "limit w a n =
     (let (w1, b) = clone w a
      in (store w1 b ((deref w1 b)\<lparr>limited := n\<rparr>), b))"

text \<open>The argument of \<open>startAfter\<close>: a \<open>DocumentSnapshot\<close> with its \<open>ref.id\<close>, or anything else.\<close>

datatype cursor_arg = DocumentSnapshot string | NotASnapshot jsval

definition unsupported_startAfter :: string where
  "unsupported_startAfter =
     ''Using unsupported startAfter() parameter for firebase-mock, returning entire dataset''"

definition startAfter :: "world \<Rightarrow> nat \<Rightarrow> cursor_arg \<Rightarrow> error + world \<times> nat" where
  "startAfter w a doc =
     (case doc of
        NotASnapshot _ \<Rightarrow> Inr (w\<lparr>console := console w @ [unsupported_startAfter]\<rparr>, a)
      | DocumentSnapshot ref_id \<Rightarrow>
          if length (orderedProperties (deref w a)) = 0
          then Inl (Error ''Query must be ordered to paginate'')
          else (let (w1, b) = clone w a
                in Inr (store w1 b ((deref w1 b)\<lparr>buildStartFinder := Some ref_id\<rparr>), b)))"

section \<open>Evaluation\<close>

text \<open>
  The mutable variables of one call of \<open>_results\<close>: the result object, the counter \<open>limit\<close>,
  the flags \<open>atStart\<close> and \<open>atEnd\<close>, and \<open>next\<close>, the variable the finder of \<open>startAfter\<close> closes
  over, created by \<open>buildStartFinder()\<close> at the start of the call.
\<close>

record walk =
  acc :: jsobj
  count :: int
  atStart :: bool
  atEnd :: bool
  next_flag :: bool

definition startFinder :: "string option \<Rightarrow> bool \<Rightarrow> string \<Rightarrow> bool \<times> bool" where
  "startFinder finder nxt key =
     (case finder of
        None \<Rightarrow> (True, nxt)
      | Some ref_id \<Rightarrow> if nxt then (True, nxt) else (False, key = ref_id))"

definition inRange :: "string option \<Rightarrow> walk \<Rightarrow> string \<Rightarrow> bool \<times> walk" where
  "inRange finder s key =
     (if atEnd s then (False, s)
      else if atStart s then (True, s)
      else (let (r, nxt) = startFinder finder (next_flag s) key
            in (r, s\<lparr>atStart := r, next_flag := nxt\<rparr>)))"

definition visit :: "query \<Rightarrow> walk \<Rightarrow> string \<times> jsval \<Rightarrow> walk" where
  "visit q s r =
     (let (ok, s1) = inRange (buildStartFinder q) s (fst r)
      in if ok \<and> (limited q \<le> 0 \<or> count s1 < limited q)
         then s1\<lparr>acc := js_set (acc s1) (fst r) (cloneDeepWith (snd r)), count := count s1 + 1\<rparr>
         else s1)"

definition start_walk :: walk where
  "start_walk = \<lparr>acc = [], count = 0, atStart = False, atEnd = False, next_flag = False\<rparr>"

text \<open>
  The records \<open>_.forEach(this.data, ...)\<close> visits, and the sequence \<open>_results\<close> walks: the
  records as stored, or sorted by the declared keys.
\<close>

definition records :: "query \<Rightarrow> (string \<times> jsval) list" where
  "records q = (case data q of None \<Rightarrow> [] | Some d \<Rightarrow> d)"

definition traversal :: "query \<Rightarrow> (string \<times> jsval) list" where
  "traversal q =
     (let recs = records q
      in if length (orderedProperties q) = 0 then recs
         else lodash_orderBy recs (map getPropertyPath (orderedProperties q)) (orderedDirections q))"

definition results :: "query \<Rightarrow> jsobj" where
  "results q =
     (if lodash_size (data q) = 0 then []
      else acc (foldl (visit q) start_walk (traversal q)))"

text \<open>
  The notions the properties of evaluation are stated with: the object built by assigning
  the records of a sequence in order, the part of a sequence strictly after the record with
  a given key, and the cap of a limit.
\<close>

definition obj_of_list :: "(string \<times> jsval) list \<Rightarrow> jsobj" where
  "obj_of_list rs = foldl (\<lambda>ob r. js_set ob (fst r) (snd r)) [] rs"

definition after_cursor :: "string option \<Rightarrow> (string \<times> jsval) list \<Rightarrow> (string \<times> jsval) list" where
  "after_cursor finder rs =
     (case finder of
        None \<Rightarrow> rs
      | Some ref_id \<Rightarrow> drop 1 (dropWhile (\<lambda>r. fst r \<noteq> ref_id) rs))"

definition limit_take :: "int \<Rightarrow> 'a list \<Rightarrow> 'a list" where
  "limit_take n rs = (if n \<le> 0 then rs else take (nat n) rs)"

text \<open>What \<open>inRange\<close> answers for each key of a walk, in order.\<close>

fun range_flags :: "string option \<Rightarrow> walk \<Rightarrow> string list \<Rightarrow> bool list" where
  "range_flags finder s [] = []"
| "range_flags finder s (k # ks) =
     (let (ok, s1) = inRange finder s k in ok # range_flags finder s1 ks)"

section \<open>Deferred delivery, subscriptions and auto-flush\<close>

text \<open>\<open>_nextErr(type)\<close>: the registered error, or \<open>null\<close> when there is none or it is falsy.\<close>

definition nextErr :: "query \<Rightarrow> string \<Rightarrow> jsval \<times> query" where
  "nextErr q type =
     (let err = js_prop (errs q) type
      in (if truthy err then err else JNull, q\<lparr>errs := filter (\<lambda>e. fst e \<noteq> type) (errs q)\<rparr>))"

text \<open>The first argument of every \<open>QuerySnapshot\<close> built here.\<close>

definition owner :: "query \<Rightarrow> nat \<Rightarrow> snapshot_owner" where
  "owner q a = (case parent q of None \<Rightarrow> Self a | Some pa \<Rightarrow> CollectionOf pa (ident q))"

text \<open>
  The \<open>then\<close>-callback of a subscription, run when the \<open>get\<close> it waited for is resolved.
  The promise library runs it after the code that resolved the promise has returned; here it
  runs at once, which is the same as long as nothing changes the data in between.
\<close>

definition refresh :: "world \<Rightarrow> nat \<Rightarrow> world" where
  "refresh w s =
     (let sub = subs w ! s;
          self = sub_query sub;
          res = results (deref w self)
      in if \<not> isEqual (JObj res) (JObj (context_data sub)) \<or> includeMetadataChanges sub
         then w\<lparr>calls := calls w @
                  [OnNext s (QuerySnapshot (owner (deref w self) self) (Some res)
                     (Some (context_data sub)))],
                subs := (subs w)[s := sub\<lparr>context_data := res\<rparr>]\<rparr>
         else w)"

text \<open>The callback \<open>get\<close> defers, run by the queue at a flush.\<close>

definition run_task :: "world \<Rightarrow> task \<Rightarrow> world" where
  "run_task w t =
     (case t of GetTask self err p \<Rightarrow>
        (let this = deref w self;
             res = results this
         in if err = JNull
            then (let snap = (if lodash_size (data this) \<noteq> 0
                              then QuerySnapshot (owner this self) (Some res) None
                              else QuerySnapshot (owner this self) None None);
                      w1 = w\<lparr>promises := (promises w)[p := (promises w ! p)\<lparr>settled := Some (Resolved snap)\<rparr>]\<rparr>
                  in (case then_sub (promises w ! p) of None \<Rightarrow> w1 | Some s \<Rightarrow> refresh w1 s))
            else w\<lparr>promises := (promises w)[p := (promises w ! p)\<lparr>settled := Some (Rejected err)\<rparr>]\<rparr>))"

fun thread :: "('a \<Rightarrow> world \<Rightarrow> world option) \<Rightarrow> 'a list \<Rightarrow> world \<Rightarrow> world option" where
  "thread f [] w = Some w"
| "thread f (x # xs) w = (case f x w of None \<Rightarrow> None | Some w1 \<Rightarrow> thread f xs w1)"

text \<open>
  \<open>_defer\<close>: the work is pushed on the shared queue and, when auto-flush is on, the queue is
  flushed. The flush is a parameter here; it is tied to the queue below.
\<close>

definition defer_with ::
  "(world \<Rightarrow> nat \<Rightarrow> flush_delay \<Rightarrow> world option) \<Rightarrow> world \<Rightarrow> nat \<Rightarrow> task \<Rightarrow> world option" where
  "defer_with flush_fn w a t =
     (let this = deref w a;
          k = queue this;
          w1 = w\<lparr>queues := (queues w)[k := (queues w ! k)\<lparr>events := events (queues w ! k) @ [t]\<rparr>]\<rparr>
      in if flushDelay this \<noteq> DelayFalse then flush_fn w1 k (flushDelay this) else Some w1)"

text \<open>
  \<open>get()\<close>, with the promise's \<open>then\<close>-subscriber if the call is the one inside \<open>onSnapshot\<close>:
  the registered error is taken, the promise is made and its work is deferred.
\<close>

definition get_with ::
  "(world \<Rightarrow> nat \<Rightarrow> flush_delay \<Rightarrow> world option) \<Rightarrow> world \<Rightarrow> nat \<Rightarrow> nat option
     \<Rightarrow> (world \<times> nat) option" where
  "get_with flush_fn w a waiting =
     (let (err, this) = nextErr (deref w a) ''get'';
          w1 = store w a this;
          p = length (promises w1);
          w2 = w1\<lparr>promises := promises w1 @ [\<lparr>settled = None, then_sub = waiting\<rparr>]\<rparr>
      in map_option (\<lambda>w3. (w3, p)) (defer_with flush_fn w2 a (GetTask a err p)))"

text \<open>The handler a subscription registers, as the queue calls it after a flush.\<close>

definition listener ::
  "(world \<Rightarrow> nat \<Rightarrow> flush_delay \<Rightarrow> world option) \<Rightarrow> nat \<Rightarrow> world \<Rightarrow> world option" where
  "listener flush_fn s w =
     (let sub = subs w ! s
      in if sub_err sub = JNull
         then map_option fst (get_with flush_fn w (sub_query sub) (Some s))
         else Some (w\<lparr>calls := calls w @ [OnError s (sub_err sub)]\<rparr>))"

text \<open>
  Modelled from the spec: a flush drains the queue, running the deferred work in the order
  it was queued, and then runs every handler registered to run after a flush. A flush with
  a numeric delay is left to a timer, which is outside this model: nothing runs now.
\<close>

definition flush_step ::
  "(world \<Rightarrow> nat \<Rightarrow> flush_delay \<Rightarrow> world option) \<Rightarrow> world \<Rightarrow> nat \<Rightarrow> flush_delay \<Rightarrow> world option" where
  "flush_step flush_fn w k delay =
     (case delay of
        DelayMs _ \<Rightarrow> Some w
      | _ \<Rightarrow>
          (let w1 = foldl run_task w (events (queues w ! k));
               w2 = w1\<lparr>queues := (queues w1)[k := (queues w1 ! k)\<lparr>events := []\<rparr>]\<rparr>
           in thread (listener flush_fn) (postFlush (queues w2 ! k)) w2))"

text \<open>
  A handler called after a flush calls \<open>get\<close>, which flushes again when auto-flush is on: the
  nesting is bounded by fuel, and \<open>None\<close> is a flush that ran out of it. With auto-flush on
  and a handler registered that has no error, every flush asks for the next one in this
  reading, and the nesting need not end; what the queue module does about a flush asked
  for while it flushes is not in the sources. The properties of subscriptions are stated
  over sequences of events (below), which leave that open.
\<close>

primrec queue_flush :: "nat \<Rightarrow> world \<Rightarrow> nat \<Rightarrow> flush_delay \<Rightarrow> world option" where
  "queue_flush 0 = (\<lambda>w k delay. None)"
| "queue_flush (Suc n) = flush_step (queue_flush n)"

text \<open>\<open>flush(delay)\<close> and \<open>get()\<close> of a query; an omitted delay is an immediate flush.\<close>

definition flush :: "nat \<Rightarrow> world \<Rightarrow> nat \<Rightarrow> flush_delay option \<Rightarrow> world option" where
  "flush n w a delay =
     queue_flush n w (queue (deref w a)) (case delay of None \<Rightarrow> DelayTrue | Some d \<Rightarrow> d)"

definition get :: "nat \<Rightarrow> world \<Rightarrow> nat \<Rightarrow> (world \<times> nat) option" where
  "get n w a = get_with (queue_flush n) w a None"

text \<open>
  \<open>onSnapshot\<close>: the flag is the truthiness of \<open>includeMetadataChanges\<close> of the first argument;
  the callbacks are those the flag selects. The subscription's number stands for the
  unsubscribe handle.
\<close>

definition onSnapshot :: "world \<Rightarrow> nat \<Rightarrow> bool \<Rightarrow> world \<times> nat" where
  "onSnapshot w a flag =
     (let (err, this) = nextErr (deref w a) ''onSnapshot'';
          w1 = store w a this;
          res = results this;
          s = length (subs w1);
          w2 = w1\<lparr>subs := subs w1 @
                 [\<lparr>sub_query = a, sub_err = err, includeMetadataChanges = flag,
                   context_data = res\<rparr>]\<rparr>;
          w3 = (if err = JNull
                then w2\<lparr>calls := calls w2 @
                       [OnNext s (if lodash_size (data this) \<noteq> 0
                                  then QuerySnapshot (owner this a) (Some res) (Some [])
                                  else QuerySnapshot (owner this a) None None)]\<rparr>
                else w2\<lparr>calls := calls w2 @ [OnError s err]\<rparr>);
          k = queue this
      in (w3\<lparr>queues := (queues w3)[k := (queues w3 ! k)
                \<lparr>postFlush := postFlush (queues w3 ! k) @ [s]\<rparr>]\<rparr>, s))"

text \<open>Modelled from the spec: the unsubscribe handle stops the handler's later calls.\<close>

definition unsubscribe :: "world \<Rightarrow> nat \<Rightarrow> world" where
  "unsubscribe w s =
     (let k = queue (deref w (sub_query (subs w ! s)))
      in w\<lparr>queues := (queues w)[k := (queues w ! k)
              \<lparr>postFlush := removeAll s (postFlush (queues w ! k))\<rparr>]\<rparr>)"

text \<open>
  \<open>autoFlush(delay)\<close>: an omitted delay is \<open>true\<close>. The call recurses into the children and the
  parent; the recursion is bounded by fuel.
\<close>

definition autoFlush_step ::
  "(world \<Rightarrow> nat \<Rightarrow> flush_delay \<Rightarrow> world option) \<Rightarrow> world \<Rightarrow> nat \<Rightarrow> flush_delay \<Rightarrow> world option" where
  "autoFlush_step rec w a delay =
     (if flushDelay (deref w a) \<noteq> delay
      then (let w1 = store w a ((deref w a)\<lparr>flushDelay := delay\<rparr>)
            in case thread (\<lambda>child w'. rec w' child delay) (map snd (children (deref w1 a))) w1 of
                 None \<Rightarrow> None
               | Some w2 \<Rightarrow>
                   (case parent (deref w2 a) of
                      None \<Rightarrow> Some w2
                    | Some pa \<Rightarrow> rec w2 pa delay))
      else Some w)"

primrec autoFlush_rec :: "nat \<Rightarrow> world \<Rightarrow> nat \<Rightarrow> flush_delay \<Rightarrow> world option" where
  "autoFlush_rec 0 = (\<lambda>w a delay. None)"
| "autoFlush_rec (Suc n) = autoFlush_step (autoFlush_rec n)"

definition autoFlush :: "nat \<Rightarrow> world \<Rightarrow> nat \<Rightarrow> flush_delay option \<Rightarrow> world option" where
  "autoFlush n w a delay =
     autoFlush_rec n w a (case delay of None \<Rightarrow> DelayTrue | Some d \<Rightarrow> d)"

text \<open>
  The notions the properties of auto-flush are stated with. In a well-formed store every
  reference to a child or a parent is the address of an object. \<open>only_flags d w w'\<close>: the
  store \<open>w'\<close> is \<open>w\<close> but for auto-flush flags that were set to \<open>d\<close>. What a new object has in
  common with the parent it was constructed with is its queue, by reference, and the value
  the parent's flag had.
\<close>

definition wf_store :: "world \<Rightarrow> bool" where
  "wf_store w =
     list_all (\<lambda>q. list_all (\<lambda>c. c < length (objs w)) (map snd (children q))
                   \<and> (case parent q of None \<Rightarrow> True | Some pa \<Rightarrow> pa < length (objs w)))
       (objs w)"

definition only_flags :: "flush_delay \<Rightarrow> world \<Rightarrow> world \<Rightarrow> bool" where
  "only_flags d w w' =
     (w' = w\<lparr>objs := objs w'\<rparr>
      \<and> list_all2 (\<lambda>q q'. q' = q \<or> q' = q\<lparr>flushDelay := d\<rparr>) (objs w) (objs w'))"

definition flag_count :: "flush_delay \<Rightarrow> world \<Rightarrow> nat" where
  "flag_count d w = length (filter (\<lambda>q. flushDelay q \<noteq> d) (objs w))"

definition constructed_under :: "world \<Rightarrow> nat option \<Rightarrow> world \<Rightarrow> nat \<Rightarrow> bool" where
  "constructed_under w par w' b =
     (parent (deref w' b) = par
      \<and> (case par of
            None \<Rightarrow> queue (deref w' b) = length (queues w) \<and> flushDelay (deref w' b) = DelayFalse
          | Some pa \<Rightarrow>
              queue (deref w' b) = queue (deref w pa)
              \<and> flushDelay (deref w' b) = flushDelay (deref w pa)))"

text \<open>
  How far \<open>autoFlush\<close> reaches. The neighbours of an object are its registered children and
  its parent, in the order the call visits them. \<open>spreads w d a x\<close>: in the store \<open>w\<close> the
  object \<open>x\<close> is reached from \<open>a\<close> along neighbours, every object on the way, \<open>a\<close> and \<open>x\<close>
  among them, having a flag other than \<open>d\<close>.
\<close>

definition neighbours :: "world \<Rightarrow> nat \<Rightarrow> nat list" where
  "neighbours w x =
     map snd (children (deref w x)) @ (case parent (deref w x) of None \<Rightarrow> [] | Some pa \<Rightarrow> [pa])"

inductive spreads :: "world \<Rightarrow> flush_delay \<Rightarrow> nat \<Rightarrow> nat \<Rightarrow> bool" for w d a where
  start: "flushDelay (deref w a) \<noteq> d \<Longrightarrow> spreads w d a a"
| onward: "spreads w d a x \<Longrightarrow> y \<in> set (neighbours w x) \<Longrightarrow> flushDelay (deref w y) \<noteq> d \<Longrightarrow>
           spreads w d a y"

text \<open>\<open>linked w a x\<close>: the object \<open>x\<close> is reached from \<open>a\<close> along neighbours, whatever the flags.\<close>

inductive linked :: "world \<Rightarrow> nat \<Rightarrow> nat \<Rightarrow> bool" for w a where
  here: "linked w a a"
| along: "linked w a x \<Longrightarrow> y \<in> set (neighbours w x) \<Longrightarrow> linked w a y"

text \<open>
  \<open>sweeps d w w'\<close>: from \<open>w\<close> to \<open>w'\<close> only flags were set to \<open>d\<close>, and every neighbour of an object
  whose flag was set on the way has the flag \<open>d\<close> in \<open>w'\<close>.
\<close>

definition sweeps :: "flush_delay \<Rightarrow> world \<Rightarrow> world \<Rightarrow> bool" where
  "sweeps d w w' =
     (only_flags d w w'
      \<and> (\<forall>x < length (objs w).
           flushDelay (deref w x) \<noteq> d \<and> flushDelay (deref w' x) = d \<longrightarrow>
           list_all (\<lambda>y. flushDelay (deref w' y) = d) (neighbours w x)))"

section \<open>Runs of a store\<close>

text \<open>
  The calls a test makes on the objects of a store, among them the data store's update of
  the data of a query (\<open>_setData\<close>). A call on an address that holds no object is not a
  step; a call of \<open>startAfter\<close> that throws leaves the store as it is.
\<close>

datatype call =
    Get nat
  | Flush nat "flush_delay option"
  | Subscribe nat bool
  | Unsubscribe nat
  | SetData nat "jsobj option"
  | AutoFlush nat "flush_delay option"
  | Where nat property string jsval
  | OrderBy nat property "string option"
  | Limit nat int
  | StartAfter nat cursor_arg

definition step :: "nat \<Rightarrow> call \<Rightarrow> world \<Rightarrow> world option" where
  "step fuel c w =
     (case c of
        Get a \<Rightarrow> if valid_ref w a then map_option fst (get fuel w a) else None
      | Flush a delay \<Rightarrow> if valid_ref w a then flush fuel w a delay else None
      | Subscribe a flag \<Rightarrow> if valid_ref w a then Some (fst (onSnapshot w a flag)) else None
      | Unsubscribe s \<Rightarrow> if s < length (subs w) then Some (unsubscribe w s) else None
      | SetData a d \<Rightarrow> if valid_ref w a then Some (store w a (setData (deref w a) d)) else None
      | AutoFlush a delay \<Rightarrow> if valid_ref w a then autoFlush fuel w a delay else None
      | Where a p operator v \<Rightarrow> if valid_ref w a then Some (fst (where w a p operator v)) else None
      | OrderBy a p direction \<Rightarrow> if valid_ref w a then Some (fst (orderBy w a p direction)) else None
      | Limit a n \<Rightarrow> if valid_ref w a then Some (fst (limit w a n)) else None
      | StartAfter a doc \<Rightarrow>
          if valid_ref w a
          then (case startAfter w a doc of Inl e \<Rightarrow> Some w | Inr r \<Rightarrow> Some (fst r))
          else None)"

definition run :: "nat \<Rightarrow> call list \<Rightarrow> world \<Rightarrow> world option" where
  "run fuel cs w = thread (step fuel) cs w"

text \<open>
  The result sets a subscription was handed, in order: the data of the snapshots its
  next-callback was called with (a snapshot built without results carries none). They
  change when no two successive ones are deep-equal.
\<close>

definition delivered :: "query_snapshot \<Rightarrow> jsobj" where
  "delivered snap = (case snap of QuerySnapshot _ r _ \<Rightarrow> (case r of None \<Rightarrow> [] | Some res \<Rightarrow> res))"

fun deliveries :: "nat \<Rightarrow> callback list \<Rightarrow> jsobj list" where
  "deliveries s [] = []"
| "deliveries s (OnNext s' snap # cs) =
     (if s' = s then delivered snap # deliveries s cs else deliveries s cs)"
| "deliveries s (OnError s' e # cs) = deliveries s cs"

fun changing :: "jsobj list \<Rightarrow> bool" where
  "changing [] = True"
| "changing [x] = True"
| "changing (x # y # r) = (\<not> isEqual (JObj y) (JObj x) \<and> changing (y # r))"

definition sub_of :: "callback \<Rightarrow> nat" where
  "sub_of c = (case c of OnNext s _ \<Rightarrow> s | OnError s _ \<Rightarrow> s)"

definition task_promise :: "task \<Rightarrow> nat" where
  "task_promise t = (case t of GetTask _ _ p \<Rightarrow> p)"

text \<open>
  The references of a store lead to objects, queues, promises and subscriptions that
  exist; and every subscription remembers in \<open>context.data\<close> what it was handed last, the
  result sets it was handed changing unless it asked for every flush.
\<close>

definition obj_ok :: "nat \<Rightarrow> nat \<Rightarrow> query \<Rightarrow> bool" where
  "obj_ok n_objs n_queues q =
     (queue q < n_queues
      \<and> (case parent q of None \<Rightarrow> True | Some pa \<Rightarrow> pa < n_objs)
      \<and> list_all (\<lambda>c. c < n_objs) (map snd (children q)))"

definition queue_ok :: "nat \<Rightarrow> nat \<Rightarrow> flush_queue \<Rightarrow> bool" where
  "queue_ok n_promises n_subs k =
     (list_all (\<lambda>t. task_promise t < n_promises) (events k)
      \<and> list_all (\<lambda>s. s < n_subs) (postFlush k))"

definition promise_ok :: "nat \<Rightarrow> promise \<Rightarrow> bool" where
  "promise_ok n_subs pr = (case then_sub pr of None \<Rightarrow> True | Some s \<Rightarrow> s < n_subs)"

definition refs_ok :: "world \<Rightarrow> bool" where
  "refs_ok w =
     (list_all (obj_ok (length (objs w)) (length (queues w))) (objs w)
      \<and> list_all (queue_ok (length (promises w)) (length (subs w))) (queues w)
      \<and> list_all (promise_ok (length (subs w))) (promises w)
      \<and> list_all (\<lambda>sub. sub_query sub < length (objs w)) (subs w)
      \<and> list_all (\<lambda>c. sub_of c < length (subs w)) (calls w))"

definition sub_ok :: "world \<Rightarrow> nat \<Rightarrow> bool" where
  "sub_ok w s =
     (let ds = deliveries s (calls w); sub = subs w ! s
      in (if ds = [] then sub_err sub \<noteq> JNull else last ds = context_data sub)
         \<and> (if includeMetadataChanges sub then True else changing ds))"

definition subs_ok :: "world \<Rightarrow> bool" where
  "subs_ok w = (refs_ok w \<and> list_all (sub_ok w) [0 ..< length (subs w)])"

text \<open>
  \<open>extends w w'\<close>: the callbacks of \<open>w'\<close> are those of \<open>w\<close> and later ones, and the subscriptions
  of \<open>w\<close> are still there with their flag and their error.
\<close>

definition extends :: "world \<Rightarrow> world \<Rightarrow> bool" where
  "extends w w' =
     (take (length (calls w)) (calls w') = calls w
      \<and> length (calls w) \<le> length (calls w')
      \<and> length (subs w) \<le> length (subs w')
      \<and> list_all (\<lambda>s. includeMetadataChanges (subs w' ! s) = includeMetadataChanges (subs w ! s)
                       \<and> sub_err (subs w' ! s) = sub_err (subs w ! s))
           [0 ..< length (subs w)])"


text \<open>
  Modelled from the spec: the queue's side of a run. The queue module is not among the
  sources, and when it does what it is asked for is its own affair: at once or after a
  delay, inside the call that asked or after it has returned. So a run is also taken as a
  sequence of events. In a call of the test a flush is only asked for, by \<open>flush\<close> itself and
  by \<open>_defer\<close> when auto-flush is on. What happens in answer are events of their own: the
  queue flushes, that is, it drains, running the deferred work in the order it was queued;
  the queue calls a handler that is registered to run after every flush; the promise
  library runs the \<open>then\<close>-callback of a resolved promise, once. Every schedule a queue can
  follow is among these sequences.
\<close>

text \<open>A flush asked of the queue \<open>k\<close>: in the call that asks, nothing happens yet.\<close>

definition ask :: "world \<Rightarrow> nat \<Rightarrow> flush_delay \<Rightarrow> world option" where
  "ask w k delay = Some w"

text \<open>
  The callback \<open>get\<close> defers, by itself: it settles the promise. The \<open>then\<close>-callback of a
  subscription that waits for the promise is an event of its own.
\<close>

definition settle_task :: "world \<Rightarrow> task \<Rightarrow> world" where
  "settle_task w t =
     (case t of GetTask self err p \<Rightarrow>
        (let this = deref w self;
             res = results this
         in if err = JNull
            then (let snap = (if lodash_size (data this) \<noteq> 0
                              then QuerySnapshot (owner this self) (Some res) None
                              else QuerySnapshot (owner this self) None None)
                  in w\<lparr>promises := (promises w)[p := (promises w ! p)\<lparr>settled := Some (Resolved snap)\<rparr>]\<rparr>)
            else w\<lparr>promises := (promises w)[p := (promises w ! p)\<lparr>settled := Some (Rejected err)\<rparr>]\<rparr>))"

datatype event = Call call | QueueFlush nat | AfterFlush nat | Then nat

text \<open>
  \<open>pending w s p\<close>: the promise \<open>p\<close> was made by the handler of the subscription \<open>s\<close>, whose
  \<open>then\<close>-callback has not run yet; \<open>awaited w s p\<close>: it has been resolved as well. A handler
  is registered from \<open>onSnapshot\<close> until it is unsubscribed.
\<close>

definition pending :: "world \<Rightarrow> nat \<Rightarrow> nat \<Rightarrow> bool" where
  "pending w s p = (p < length (promises w) \<and> then_sub (promises w ! p) = Some s)"

definition awaited :: "world \<Rightarrow> nat \<Rightarrow> nat \<Rightarrow> bool" where
  "awaited w s p =
     (pending w s p
      \<and> (case settled (promises w ! p) of
            None \<Rightarrow> False
          | Some out \<Rightarrow> (case out of Resolved _ \<Rightarrow> True | Rejected _ \<Rightarrow> False)))"

definition registered :: "world \<Rightarrow> nat \<Rightarrow> bool" where
  "registered w s =
     (s < length (subs w)
      \<and> s \<in> set (postFlush (queues w ! queue (deref w (sub_query (subs w ! s))))))"

text \<open>
  \<open>fire fuel e w\<close> is the store after the event \<open>e\<close>, and \<open>None\<close> when \<open>e\<close> cannot happen in \<open>w\<close>:
  a call on an address that holds no object, a flush of a queue that does not exist, a call
  of a handler that is not registered, the \<open>then\<close>-callback of a promise that is not resolved
  or that no subscription waits for. The fuel bounds the recursion of \<open>autoFlush\<close> only.
\<close>

definition fire :: "nat \<Rightarrow> event \<Rightarrow> world \<Rightarrow> world option" where
  "fire fuel e w =
     (case e of
        Call c \<Rightarrow>
          (case c of
             Get a \<Rightarrow> if valid_ref w a then map_option fst (get_with ask w a None) else None
           | Flush a delay \<Rightarrow> if valid_ref w a then Some w else None
           | _ \<Rightarrow> step fuel c w)
      | QueueFlush k \<Rightarrow>
          if k < length (queues w)
          then (let w1 = foldl settle_task w (events (queues w ! k))
                in Some (w1\<lparr>queues := (queues w1)[k := (queues w1 ! k)\<lparr>events := []\<rparr>]\<rparr>))
          else None
      | AfterFlush s \<Rightarrow> if registered w s then listener ask s w else None
      | Then p \<Rightarrow>
          (case then_sub (promises w ! p) of
             None \<Rightarrow> None
           | Some s \<Rightarrow>
               if awaited w s p
               then Some (refresh
                      (w\<lparr>promises := (promises w)[p := (promises w ! p)\<lparr>then_sub := None\<rparr>]\<rparr>) s)
               else None))"

definition trace :: "nat \<Rightarrow> event list \<Rightarrow> world \<Rightarrow> world option" where
  "trace fuel es w = thread (fire fuel) es w"

section \<open>Sample inputs\<close>

definition empty_world :: world where
  "empty_world = \<lparr>objs = [], queues = [], promises = [], subs = [], console = [], calls = []\<rparr>"

text \<open>The data of the spec's examples: \<open>{a:{x:1}, b:{x:2}, c:{x:1}}\<close>.\<close>

definition sample_data :: jsobj where
  "sample_data =
     [(''a'', JObj [(''x'', JNum 1)]), (''b'', JObj [(''x'', JNum 2)]),
      (''c'', JObj [(''x'', JNum 1)])]"

text \<open>A store holding one query without a parent over the sample data, at address 0.\<close>

definition sample_world :: world where
  "sample_world = fst (MockFirestoreQuery empty_world (Some ''rooms'') (Some sample_data) None None)"

text \<open>Data whose keys are array indices: \<open>{'1':{x:2}, '2':{x:1}}\<close>, in a store of its own.\<close>

definition index_data :: jsobj where
  "index_data = [(''1'', JObj [(''x'', JNum 2)]), (''2'', JObj [(''x'', JNum 1)])]"

definition index_world :: world where
  "index_world = fst (MockFirestoreQuery empty_world (Some ''rooms'') (Some index_data) None None)"


text \<open>
  A store with three generations, each registered among the children of the one before:
  the grandparent at address 0, the parent at 1 and the query over the sample data at 2.
\<close>

definition lineage_world :: world where
  "lineage_world =
     (let (w0, g) = MockFirestoreQuery empty_world None None None None;
          (w1, pa) = MockFirestoreQuery w0 (Some ''houses'') None (Some g) (Some ''houses'');
          (w2, a) = MockFirestoreQuery w1 (Some ''rooms'') (Some sample_data) (Some pa) (Some ''rooms'');
          w3 = store w2 g ((deref w2 g)\<lparr>children := [(''houses'', pa)]\<rparr>)
      in store w3 pa ((deref w3 pa)\<lparr>children := [(''rooms'', a)]\<rparr>))"

text \<open>The same store after \<open>limit(5)\<close> on the query at address 2: the clone is at address 3.\<close>

definition cloned_lineage :: world where
  "cloned_lineage = fst (limit lineage_world 2 5)"


text \<open>
  The sample store with an error registered for \<open>get\<close> and one for \<open>onSnapshot\<close> on its query,
  and the data the sample query is given later: \<open>{a:{x:1}, b:{x:3}, c:{x:1}}\<close>.
\<close>

definition get_failure :: jsval where
  "get_failure = JObj [(''message'', JStr ''get failed'')]"

definition snapshot_failure :: jsval where
  "snapshot_failure = JObj [(''message'', JStr ''denied'')]"

definition erring_world :: world where
  "erring_world =
     store sample_world 0
       ((deref sample_world 0)\<lparr>errs := [(''get'', get_failure), (''onSnapshot'', snapshot_failure)]\<rparr>)"

definition changed_data :: jsobj where
  "changed_data =
     [(''a'', JObj [(''x'', JNum 1)]), (''b'', JObj [(''x'', JNum 3)]),
      (''c'', JObj [(''x'', JNum 1)])]"

section \<open>Properties\<close>

subsection \<open>The sample store\<close>

lemma sample_world_eq:
  "sample_world =
     \<lparr>objs = [\<lparr>errs = [], path = ''rooms'', ident = None, flushDelay = DelayFalse, queue = 0,
               parent = None, firestore = None, children = [], orderedProperties = [],
               orderedDirections = [], limited = 0, buildStartFinder = None,
               data = Some sample_data\<rparr>],
      queues = [\<lparr>events = [], postFlush = []\<rparr>], promises = [], subs = [], console = [],
      calls = []\<rparr>"
  by (simp add: sample_world_def MockFirestoreQuery_def empty_world_def setData_def
      cleanFirestoreData_def extractName_def)

subsection \<open>Objects and their enumeration order\<close>

lemma key_before_trans: "key_before a b \<Longrightarrow> key_before b c \<Longrightarrow> key_before a c"
  by (auto simp: key_before_def split: if_splits)

lemma update_key_absent: "k \<notin> fst ` set obj \<Longrightarrow> update_key k v obj = obj"
  by (induction obj) auto

lemma insert_index_last:
  "\<forall>k' \<in> set (map fst ys). is_array_index k' \<and> index_val k' < index_val k \<Longrightarrow>
   insert_index k v ys = ys @ [(k, v)]"
  by (induction ys) auto

lemma js_set_append:
  assumes "js_object (ys @ [(k, v)])"
  shows "js_set ys k v = ys @ [(k, v)]"
proof -
  from assms have fresh: "k \<notin> fst ` set ys"
    by (auto simp: js_object_def)
  show ?thesis
  proof (cases "is_array_index k")
    case True
    from assms have "\<forall>k' \<in> set (map fst ys). key_before k' k"
      by (auto simp: js_object_def sorted_wrt_append)
    with True have "\<forall>k' \<in> set (map fst ys). is_array_index k' \<and> index_val k' < index_val k"
      by (auto simp: key_before_def)
    then show ?thesis using fresh True
      by (simp add: js_set_def insert_index_last)
  next
    case False
    then show ?thesis using fresh by (simp add: js_set_def)
  qed
qed

lemma sorted_wrt_map_filter:
  "sorted_wrt R (map f xs) \<Longrightarrow> sorted_wrt R (map f (filter P xs))"
  by (induction xs) auto

lemma js_object_filter: "js_object xs \<Longrightarrow> js_object (filter P xs)"
  by (simp add: js_object_def distinct_map_filter sorted_wrt_map_filter)

lemma js_object_prefix: "js_object (xs @ ys) \<Longrightarrow> js_object xs"
  by (auto simp: js_object_def sorted_wrt_append)

lemma js_object_filter_snoc:
  assumes "js_object (xs @ r # ys)"
  shows "js_object (filter P xs @ [r])"
proof -
  have "js_object (xs @ [r])"
    using js_object_prefix [of "xs @ [r]" ys] assms by simp
  then have "js_object (filter (\<lambda>x. P x \<or> x = r) (xs @ [r]))"
    by (rule js_object_filter)
  moreover have "r \<notin> set xs"
    using \<open>js_object (xs @ [r])\<close> by (auto simp: js_object_def)
  then have "filter (\<lambda>x. P x \<or> x = r) xs = filter P xs"
    by (auto intro: filter_cong)
  ultimately show ?thesis by simp
qed

lemma foldl_filter_set:
  "js_object (pre @ suf) \<Longrightarrow>
   foldl (\<lambda>results r. if P r then js_set results (fst r) (snd r) else results) (filter P pre) suf
     = filter P (pre @ suf)"
proof (induction suf arbitrary: pre)
  case Nil
  then show ?case by simp
next
  case (Cons r suf)
  have obj: "js_object ((pre @ [r]) @ suf)" using Cons.prems by simp
  show ?case
  proof (cases "P r")
    case True
    have "js_set (filter P pre) (fst r) (snd r) = filter P pre @ [r]"
      using js_set_append [of "filter P pre" "fst r" "snd r"]
        js_object_filter_snoc [OF Cons.prems, of P] by simp
    then show ?thesis using Cons.IH [OF obj] True by simp
  next
    case False
    then show ?thesis using Cons.IH [OF obj] by simp
  qed
qed

lemma obj_of_list_js_object: "js_object rs \<Longrightarrow> obj_of_list rs = rs"
  using foldl_filter_set [of "[]" rs "\<lambda>r. True"] by (simp add: obj_of_list_def)

lemma where_results_filter:
  "js_object d \<Longrightarrow> where_results p operator v d = filter (where_match p operator v) d"
  using foldl_filter_set [of "[]" d "where_match p operator v"]
  unfolding where_results_def cloneDeep_def by simp

subsection \<open>The walk of an evaluation\<close>

lemma visit_ready:
  assumes "\<not> atEnd s" "atStart s \<or> next_flag s \<or> buildStartFinder q = None"
  shows "visit q s r =
     (if limited q \<le> 0 \<or> count s < limited q
      then s\<lparr>atStart := True, acc := js_set (acc s) (fst r) (snd r), count := count s + 1\<rparr>
      else s\<lparr>atStart := True\<rparr>)"
  using assms
  by (cases "buildStartFinder q")
     (auto simp: visit_def inRange_def startFinder_def cloneDeepWith_def)

lemma walk_ready:
  "\<not> atEnd s \<Longrightarrow> atStart s \<or> next_flag s \<or> buildStartFinder q = None \<Longrightarrow> 0 \<le> count s \<Longrightarrow>
   acc (foldl (visit q) s rs)
     = foldl (\<lambda>ob r. js_set ob (fst r) (snd r)) (acc s)
         (if limited q \<le> 0 then rs else take (nat (limited q - count s)) rs)"
proof (induction rs arbitrary: s)
  case Nil
  then show ?case by simp
next
  case (Cons r rs)
  let ?s1 = "visit q s r"
  have v: "?s1 = (if limited q \<le> 0 \<or> count s < limited q
      then s\<lparr>atStart := True, acc := js_set (acc s) (fst r) (snd r), count := count s + 1\<rparr>
      else s\<lparr>atStart := True\<rparr>)"
    using visit_ready [OF Cons.prems(1) Cons.prems(2)] .
  have ih: "acc (foldl (visit q) ?s1 rs)
     = foldl (\<lambda>ob r. js_set ob (fst r) (snd r)) (acc ?s1)
         (if limited q \<le> 0 then rs else take (nat (limited q - count ?s1)) rs)"
    using Cons.prems by (intro Cons.IH) (auto simp: v)
  show ?case
  proof (cases "limited q \<le> 0 \<or> count s < limited q")
    case True
    have "limited q \<le> 0 \<or> nat (limited q - count s) = Suc (nat (limited q - (count s + 1)))"
      using True Cons.prems(3) by linarith
    then show ?thesis using ih True
      by (auto simp: v)
  next
    case False
    then show ?thesis using ih by (auto simp: v)
  qed
qed

lemma walk_seeking:
  "\<not> atEnd s \<Longrightarrow> \<not> atStart s \<Longrightarrow> \<not> next_flag s \<Longrightarrow> buildStartFinder q = Some i \<Longrightarrow> 0 \<le> count s \<Longrightarrow>
   acc (foldl (visit q) s rs)
     = foldl (\<lambda>ob r. js_set ob (fst r) (snd r)) (acc s)
         (if limited q \<le> 0 then drop 1 (dropWhile (\<lambda>r. fst r \<noteq> i) rs)
          else take (nat (limited q - count s)) (drop 1 (dropWhile (\<lambda>r. fst r \<noteq> i) rs)))"
proof (induction rs arbitrary: s)
  case Nil
  then show ?case by simp
next
  case (Cons r rs)
  have v: "visit q s r = s\<lparr>atStart := False, next_flag := (fst r = i)\<rparr>"
    using Cons.prems by (simp add: visit_def inRange_def startFinder_def)
  show ?case
  proof (cases "fst r = i")
    case True
    have "acc (foldl (visit q) (visit q s r) rs)
      = foldl (\<lambda>ob r. js_set ob (fst r) (snd r)) (acc (visit q s r))
         (if limited q \<le> 0 then rs else take (nat (limited q - count (visit q s r))) rs)"
      using Cons.prems True by (intro walk_ready) (auto simp: v)
    then show ?thesis using True by (simp add: v)
  next
    case False
    have "acc (foldl (visit q) (visit q s r) rs)
     = foldl (\<lambda>ob r. js_set ob (fst r) (snd r)) (acc (visit q s r))
         (if limited q \<le> 0 then drop 1 (dropWhile (\<lambda>r. fst r \<noteq> i) rs)
          else take (nat (limited q - count (visit q s r))) (drop 1 (dropWhile (\<lambda>r. fst r \<noteq> i) rs)))"
      using Cons.prems False by (intro Cons.IH) (auto simp: v)
    then show ?thesis using False by (simp add: v)
  qed
qed

lemma stable_sort_by_Nil: "stable_sort_by cmp [] = []"
  by (simp add: stable_sort_by_def)

lemma traversal_empty: "lodash_size (data q) = 0 \<Longrightarrow> traversal q = []"
  by (auto simp: traversal_def records_def lodash_size_def lodash_orderBy_def stable_sort_by_Nil
      split: option.splits)

lemma results_walk:
  "results q = obj_of_list (limit_take (limited q) (after_cursor (buildStartFinder q) (traversal q)))"
proof (cases "lodash_size (data q) = 0")
  case True
  then show ?thesis
    by (cases "buildStartFinder q")
       (simp_all add: results_def traversal_empty after_cursor_def limit_take_def obj_of_list_def)
next
  case False
  show ?thesis
  proof (cases "buildStartFinder q")
    case None
    then show ?thesis
      using False walk_ready [of start_walk q "traversal q"]
      by (simp add: results_def start_walk_def after_cursor_def limit_take_def obj_of_list_def)
  next
    case (Some i)
    then show ?thesis
      using False walk_seeking [of start_walk q i "traversal q"]
      by (simp add: results_def start_walk_def after_cursor_def limit_take_def obj_of_list_def)
  qed
qed

subsection \<open>Cloning\<close>

lemma clone_eq:
  "clone w a =
     ((case parent (deref w a) of
         None \<Rightarrow> w\<lparr>queues := queues w @ [\<lparr>events = [], postFlush = []\<rparr>]\<rparr>
       | Some _ \<Rightarrow> w)
      \<lparr>objs := objs w @
         [(deref w a)
            \<lparr>errs := [],
             path := (if path (deref w a) = [] then ''Mock://'' else path (deref w a)),
             ident := (case parent (deref w a) of
                         None \<Rightarrow> extractName (Some (path (deref w a)))
                       | Some _ \<Rightarrow> ident (deref w a)),
             flushDelay := (case parent (deref w a) of
                              None \<Rightarrow> DelayFalse | Some pa \<Rightarrow> flushDelay (deref w pa)),
             queue := (case parent (deref w a) of
                         None \<Rightarrow> length (queues w) | Some pa \<Rightarrow> queue (deref w pa)),
             firestore := (case parent (deref w a) of
                             None \<Rightarrow> None | Some pa \<Rightarrow> firestore (deref w pa)),
             children := []\<rparr>]\<rparr>,
      length (objs w))"
  by (cases "parent (deref w a)")
     (simp_all add: clone_def MockFirestoreQuery_def Let_def store_def deref_def setData_def
        getData_def cleanFirestoreData_def)

lemma clone_snd: "snd (clone w a) = length (objs w)"
  by (simp add: clone_eq)

lemma clone_frame:
  "valid_ref w a' \<Longrightarrow> deref (fst (clone w a)) a' = deref w a'"
  by (cases "parent (deref w a)") (simp_all add: clone_eq deref_def valid_ref_def nth_append)

lemma clone_new:
  "deref (fst (clone w a)) (length (objs w)) =
     (deref w a)
        \<lparr>errs := [],
         path := (if path (deref w a) = [] then ''Mock://'' else path (deref w a)),
         ident := (case parent (deref w a) of
                     None \<Rightarrow> extractName (Some (path (deref w a)))
                   | Some _ \<Rightarrow> ident (deref w a)),
         flushDelay := (case parent (deref w a) of
                          None \<Rightarrow> DelayFalse | Some pa \<Rightarrow> flushDelay (deref w pa)),
         queue := (case parent (deref w a) of
                     None \<Rightarrow> length (queues w) | Some pa \<Rightarrow> queue (deref w pa)),
         firestore := (case parent (deref w a) of
                         None \<Rightarrow> None | Some pa \<Rightarrow> firestore (deref w pa)),
         children := []\<rparr>"
  by (cases "parent (deref w a)") (simp_all add: clone_eq deref_def)

lemma clone_length: "length (objs (fst (clone w a))) = Suc (length (objs w))"
  by (cases "parent (deref w a)") (simp_all add: clone_eq)

lemma clone_console: "console (fst (clone w a)) = console w"
  by (cases "parent (deref w a)") (simp_all add: clone_eq)

lemma deref_store: "b < length (objs w) \<Longrightarrow> deref (store w b q) b = q"
  by (simp add: deref_def store_def)

lemma deref_store_other: "a \<noteq> b \<Longrightarrow> deref (store w b q) a = deref w a"
  by (simp add: deref_def store_def)

lemma where_eq:
  "where w a p operator v =
     (let w1 = fst (clone w a); b = length (objs w); this = deref w1 a
      in if operator \<noteq> ''=='' \<and> operator \<noteq> ''array-contains'' \<and> operator \<noteq> ''in''
         then (w1\<lparr>console := console w1 @ [unsupported_where]\<rparr>, b)
         else if lodash_size (data this) \<noteq> 0
         then (store w1 b (setData (deref w1 b)
                 (Some (where_results p operator v (records this)))), b)
         else (store w1 b (setData (deref w1 b) None), b))"
  by (simp add: where_def Let_def split_beta clone_snd records_def)

subsection \<open>What an evaluation returns\<close>

lemma set_insert_index: "set (insert_index k v obj) = insert (k, v) (set obj)"
  by (induction obj) (auto split: if_splits)

lemma set_js_set_fresh:
  "k \<notin> fst ` set obj \<Longrightarrow> set (js_set obj k v) = insert (k, v) (set obj)"
  by (simp add: js_set_def set_insert_index)

lemma set_foldl_js_set:
  "distinct (map fst rs) \<Longrightarrow> fst ` set ob \<inter> fst ` set rs = {} \<Longrightarrow>
   set (foldl (\<lambda>ob r. js_set ob (fst r) (snd r)) ob rs) = set ob \<union> set rs"
proof (induction rs arbitrary: ob)
  case Nil
  then show ?case by simp
next
  case (Cons r rs)
  have fresh: "fst r \<notin> fst ` set ob" using Cons.prems(2) by auto
  have s: "set (js_set ob (fst r) (snd r)) = insert r (set ob)"
    using set_js_set_fresh [OF fresh, of "snd r"] by simp
  have "set (foldl (\<lambda>ob r. js_set ob (fst r) (snd r)) (js_set ob (fst r) (snd r)) rs)
      = set (js_set ob (fst r) (snd r)) \<union> set rs"
    using Cons.prems by (intro Cons.IH) (auto simp: s)
  then show ?case by (simp add: s)
qed

lemma set_obj_of_list: "distinct (map fst rs) \<Longrightarrow> set (obj_of_list rs) = set rs"
  using set_foldl_js_set [of rs "[]"] by (simp add: obj_of_list_def)

lemma set_insert_by: "set (insert_by cmp x ys) = insert x (set ys)"
  by (induction ys) auto

lemma set_stable_sort_by: "set (stable_sort_by cmp xs) = set xs"
  by (induction xs) (auto simp: stable_sort_by_def set_insert_by)

lemma length_insert_by: "length (insert_by cmp x ys) = Suc (length ys)"
  by (induction ys) auto

lemma length_stable_sort_by: "length (stable_sort_by cmp xs) = length xs"
  by (induction xs) (auto simp: stable_sort_by_def length_insert_by)

lemma distinct_keys_insert_by:
  "distinct (map fst (insert_by cmp x ys)) = (fst x \<notin> fst ` set ys \<and> distinct (map fst ys))"
  by (induction ys) (auto simp: set_insert_by)

lemma distinct_keys_stable_sort_by:
  "distinct (map fst xs) \<Longrightarrow> distinct (map fst (stable_sort_by cmp xs))"
proof (induction xs)
  case Nil
  then show ?case by (simp add: stable_sort_by_def)
next
  case (Cons x xs)
  have "stable_sort_by cmp (x # xs) = insert_by cmp x (stable_sort_by cmp xs)"
    by (simp add: stable_sort_by_def)
  then show ?case using Cons
    by (auto simp: distinct_keys_insert_by set_stable_sort_by)
qed

lemma set_traversal: "set (traversal q) = set (records q)"
  by (simp add: traversal_def Let_def lodash_orderBy_def set_stable_sort_by)

lemma distinct_keys_traversal:
  "distinct (map fst (records q)) \<Longrightarrow> distinct (map fst (traversal q))"
  by (simp add: traversal_def Let_def lodash_orderBy_def distinct_keys_stable_sort_by)

lemma results_everything:
  assumes "buildStartFinder q = None" "limited q \<le> 0" "js_object (records q)"
  shows "set (results q) = set (records q)"
proof -
  have "distinct (map fst (traversal q))"
    using assms(3) by (simp add: js_object_def distinct_keys_traversal)
  then show ?thesis
    using assms(1,2)
    by (simp add: results_walk after_cursor_def limit_take_def set_obj_of_list set_traversal)
qed

lemma results_plain:
  assumes "orderedProperties q = []" "buildStartFinder q = None" "limited q \<le> 0"
    "js_object (records q)"
  shows "results q = records q"
  using assms
  by (simp add: results_walk after_cursor_def limit_take_def traversal_def Let_def
      obj_of_list_js_object)

lemma results_cong:
  "data q' = data q \<Longrightarrow> orderedProperties q' = orderedProperties q \<Longrightarrow>
   orderedDirections q' = orderedDirections q \<Longrightarrow> limited q' = limited q \<Longrightarrow>
   buildStartFinder q' = buildStartFinder q \<Longrightarrow> results q' = results q"
  by (simp add: results_walk traversal_def records_def Let_def)

lemma size_records: "lodash_size (data q) = length (records q)"
  by (simp add: lodash_size_def records_def split: option.splits)

lemma records_setData: "records (setData q d) = (case d of None \<Rightarrow> [] | Some x \<Rightarrow> x)"
  by (simp add: records_def setData_def cleanFirestoreData_def)


text \<open>The definitions a concrete store is evaluated with.\<close>

lemmas eval_defs =
  where_def clone_def MockFirestoreQuery_def Let_def store_def deref_def setData_def getData_def
  cleanFirestoreData_def extractName_def lodash_size_def where_results_def where_match_def
  js_set_def cloneDeep_def queryable_def getPropertyPath_def lodash_get_def js_prop_def
  member_def results_def traversal_def records_def visit_def inRange_def startFinder_def
  start_walk_def cloneDeepWith_def is_array_index_def is_digit_def
  get_def get_with_def defer_with_def nextErr_def truthy_def flush_def run_task_def owner_def
  flush_step_def valid_ref_def js_object_def key_before_def sample_data_def


subsection \<open>Pagination needs an order\<close>




subsection \<open>The equality filter\<close>

text \<open>
  C1. For every store, every query whose data is a JavaScript object and every property,
  \<open>where(property, '==', value)\<close> returns a query whose records are exactly the records of
  the receiver whose value at the property's path deep-equals the target, in the order the
  receiver holds them; evaluated on a receiver with no order, cursor or limit, the result
  is that same sequence.
\<close>

theorem where_equality_filter:
  assumes "valid_ref w a" and "js_object (records (deref w a))"
  shows "case where w a p ''=='' v of (w', b) \<Rightarrow>
      records (deref w' b)
        = filter (\<lambda>r. isEqual (lodash_get (queryable r) (getPropertyPath p)) v) (records (deref w a))
    \<and> (orderedProperties (deref w a) = [] \<and> buildStartFinder (deref w a) = None
         \<and> limited (deref w a) \<le> 0
       \<longrightarrow> results (deref w' b)
        = filter (\<lambda>r. isEqual (lodash_get (queryable r) (getPropertyPath p)) v) (records (deref w a)))"
proof -
  let ?P = "\<lambda>r. isEqual (lodash_get (queryable r) (getPropertyPath p)) v"
  let ?w1 = "fst (clone w a)"
  let ?b = "length (objs w)"
  let ?q = "deref ?w1 ?b"
  obtain w' b where wb: "where w a p ''=='' v = (w', b)" by (cases "where w a p ''=='' v")
  have recv: "deref ?w1 a = deref w a" using assms(1) by (rule clone_frame)
  have m: "where_match p ''=='' v = ?P" by (rule ext) (simp add: where_match_def)
  have valid: "?b < length (objs ?w1)" by (simp add: clone_length)
  have b: "b = ?b" using wb by (simp add: where_eq Let_def split: if_splits)
  have q': "deref w' b = setData ?q
      (if lodash_size (data (deref w a)) \<noteq> 0
       then Some (where_results p ''=='' v (records (deref w a))) else None)"
    using wb valid by (auto simp: where_eq Let_def recv deref_store split: if_splits)
  have wr: "where_results p ''=='' v (records (deref w a)) = filter ?P (records (deref w a))"
    using where_results_filter [OF assms(2)] by (simp add: m)
  have recs: "records (deref w' b) = filter ?P (records (deref w a))"
    by (cases "records (deref w a) = []") (simp_all add: q' wr size_records records_setData)
  have fields: "orderedProperties (deref w' b) = orderedProperties (deref w a)"
    "buildStartFinder (deref w' b) = buildStartFinder (deref w a)"
    "limited (deref w' b) = limited (deref w a)"
    by (simp_all add: q' setData_def clone_new)
  have obj: "js_object (records (deref w' b))"
    using assms(2) by (simp add: recs js_object_filter)
  have "orderedProperties (deref w a) = [] \<and> buildStartFinder (deref w a) = None
         \<and> limited (deref w a) \<le> 0 \<longrightarrow> results (deref w' b) = filter ?P (records (deref w a))"
    using results_plain [of "deref w' b"] obj by (simp add: fields recs)
  with recs show ?thesis by (simp add: wb)
qed

text \<open>
  The spec's example: over \<open>{a:{x:1}, b:{x:2}, c:{x:1}}\<close>, \<open>where('x','==',1)\<close> keeps \<open>a\<close> and \<open>c\<close>,
  and the promise of \<open>get()\<close> is resolved at the flush with these two records.
\<close>

theorem where_equality_filter_witness:
  "valid_ref sample_world 0 \<and> js_object (records (deref sample_world 0))
   \<and> (case where sample_world 0 (Property ''x'') ''=='' (JNum 1) of (w', b) \<Rightarrow>
         records (deref w' b) = [(''a'', JObj [(''x'', JNum 1)]), (''c'', JObj [(''x'', JNum 1)])]
       \<and> results (deref w' b) = [(''a'', JObj [(''x'', JNum 1)]), (''c'', JObj [(''x'', JNum 1)])]
       \<and> (case get 1 w' b of
             Some (w2, pr) \<Rightarrow>
               (case flush 1 w2 b None of
                  Some w3 \<Rightarrow>
                    settled (promises w3 ! pr)
                      = Some (Resolved (QuerySnapshot (Self b)
                          (Some [(''a'', JObj [(''x'', JNum 1)]), (''c'', JObj [(''x'', JNum 1)])])
                          None))
                | None \<Rightarrow> False)
           | None \<Rightarrow> False))"
  using where_equality_filter [of sample_world 0 "Property ''x''" "JNum 1"]
  by (simp add: sample_world_eq eval_defs)


subsection \<open>Unsupported operators\<close>

lemma where_unsupported_eq:
  assumes "operator \<noteq> ''==''" "operator \<noteq> ''array-contains''" "operator \<noteq> ''in''"
  shows "where w a p operator v
    = ((fst (clone w a))\<lparr>console := console w @ [unsupported_where]\<rparr>, length (objs w))"
  using assms by (simp add: where_eq Let_def clone_console)

lemma deref_console_update: "deref (w\<lparr>console := c\<rparr>) a = deref w a"
  by (simp add: deref_def)

text \<open>
  C10. For every \<open>where\<close> call whose operator is none of \<open>==\<close>, \<open>array-contains\<close> and \<open>in\<close>, the
  warning is written to the console and the returned clone holds the data of the receiver
  unfiltered: it evaluates to what the receiver evaluates to, which, with no cursor and no
  limit, is every record. The call returns a query; there is no error result.
\<close>

theorem where_unsupported_operator:
  assumes "operator \<noteq> ''==''" "operator \<noteq> ''array-contains''" "operator \<noteq> ''in''"
    and "valid_ref w a"
  shows "case where w a p operator v of (w', b) \<Rightarrow>
       console w' = console w @ [unsupported_where]
     \<and> data (deref w' b) = data (deref w a)
     \<and> results (deref w' b) = results (deref w a)
     \<and> (buildStartFinder (deref w a) = None \<and> limited (deref w a) \<le> 0
          \<and> js_object (records (deref w a))
        \<longrightarrow> set (results (deref w' b)) = set (records (deref w a)))"
proof -
  let ?q = "deref (fst (clone w a)) (length (objs w))"
  have same: "results ?q = results (deref w a)"
    by (rule results_cong) (simp_all add: clone_new)
  have "buildStartFinder (deref w a) = None \<and> limited (deref w a) \<le> 0
          \<and> js_object (records (deref w a))
        \<longrightarrow> set (results ?q) = set (records (deref w a))"
    using results_everything [of "deref w a"] by (simp add: same)
  then show ?thesis
    using same
    by (simp add: where_unsupported_eq [OF assms(1,2,3)] deref_console_update clone_new)
qed

theorem where_unsupported_operator_witness:
  "''>'' \<noteq> ''=='' \<and> ''>'' \<noteq> ''array-contains'' \<and> ''>'' \<noteq> ''in'' \<and> valid_ref sample_world 0
   \<and> (case where sample_world 0 (Property ''x'') ''>'' (JNum 1) of (w', b) \<Rightarrow>
         console w' = [unsupported_where]
       \<and> data (deref w' b) = Some sample_data
       \<and> results (deref w' b) = sample_data)"
  using where_unsupported_operator [of "''>''" sample_world 0 "Property ''x''" "JNum 1"]
  by (simp add: sample_world_eq eval_defs)

subsection \<open>The limit\<close>

lemma length_update_key: "length (update_key k v obj) = length obj"
  by (induction obj) auto

lemma length_insert_index: "length (insert_index k v obj) = Suc (length obj)"
  by (induction obj) auto

lemma length_js_set: "length (js_set obj k v) \<le> Suc (length obj)"
  by (simp add: js_set_def length_update_key length_insert_index)

lemma length_foldl_js_set:
  "length (foldl (\<lambda>ob r. js_set ob (fst r) (snd r)) ob rs) \<le> length ob + length rs"
proof (induction rs arbitrary: ob)
  case Nil
  then show ?case by simp
next
  case (Cons r rs)
  have "length (foldl (\<lambda>ob r. js_set ob (fst r) (snd r)) (js_set ob (fst r) (snd r)) rs)
      \<le> length (js_set ob (fst r) (snd r)) + length rs"
    by (rule Cons.IH)
  also have "\<dots> \<le> Suc (length ob) + length rs"
    using length_js_set [of ob "fst r" "snd r"] by simp
  finally show ?case by simp
qed

lemma length_obj_of_list: "length (obj_of_list rs) \<le> length rs"
  using length_foldl_js_set [of "[]" rs] by (simp add: obj_of_list_def)

lemma limit_eq: "limit w a n
   = (store (fst (clone w a)) (length (objs w))
        ((deref (fst (clone w a)) (length (objs w)))\<lparr>limited := n\<rparr>), length (objs w))"
  by (simp add: limit_def split_beta clone_snd)

lemma traversal_cong:
  "data q' = data q \<Longrightarrow> orderedProperties q' = orderedProperties q \<Longrightarrow>
   orderedDirections q' = orderedDirections q \<Longrightarrow> traversal q' = traversal q"
  unfolding traversal_def records_def by (simp cong: if_cong)

text \<open>
  C8. For every query, the evaluation of \<open>limit(n)\<close> is the object built from the sequence
  that is left of the receiver's traversal (its records after the filters, in its order)
  after the cursor: from its first \<open>n\<close> records when \<open>n > 0\<close>, which makes at most \<open>n\<close> entries,
  and from all of them when \<open>n \<le> 0\<close>. A newly constructed query has the limit 0.
\<close>

theorem limit_truncates:
  assumes "valid_ref w a"
  shows "case limit w a n of (w', b) \<Rightarrow>
       (0 < n \<longrightarrow>
          results (deref w' b)
            = obj_of_list (take (nat n)
                (after_cursor (buildStartFinder (deref w a)) (traversal (deref w a))))
          \<and> length (results (deref w' b)) \<le> nat n)
     \<and> (n \<le> 0 \<longrightarrow>
          results (deref w' b)
            = obj_of_list (after_cursor (buildStartFinder (deref w a)) (traversal (deref w a))))
     \<and> limited (deref (fst (MockFirestoreQuery w p d par name))
                  (snd (MockFirestoreQuery w p d par name))) = 0"
proof -
  let ?b = "length (objs w)"
  let ?q = "(deref (fst (clone w a)) ?b)\<lparr>limited := n\<rparr>"
  let ?seq = "after_cursor (buildStartFinder (deref w a)) (traversal (deref w a))"
  have q: "deref (fst (limit w a n)) (snd (limit w a n)) = ?q"
    by (simp add: limit_eq deref_store clone_length)
  have tr: "traversal ?q = traversal (deref w a)"
    by (rule traversal_cong) (simp_all add: clone_new)
  have fields: "limited ?q = n" "buildStartFinder ?q = buildStartFinder (deref w a)"
    by (simp_all add: clone_new)
  have res: "results ?q = obj_of_list (limit_take n ?seq)"
    using results_walk [of ?q] by (simp only: tr fields)
  have len: "0 < n \<longrightarrow> length (results ?q) \<le> nat n"
    using length_obj_of_list [of "take (nat n) ?seq"] by (simp add: res limit_take_def)
  have new: "limited (deref (fst (MockFirestoreQuery w p d par name))
                  (snd (MockFirestoreQuery w p d par name))) = 0"
    by (cases par) (simp_all add: MockFirestoreQuery_def Let_def deref_def setData_def)
  show ?thesis
    using q res len new by (simp add: split_beta limit_take_def)
qed

text \<open>
  The spec's example: over the sample data, \<open>orderBy('x','desc')\<close> then \<open>limit(1)\<close> yields
  \<open>{b:{x:2}}\<close>; with \<open>limit(0)\<close> all three records are returned.
\<close>

lemmas sort_defs =
  orderBy_def limit_def lodash_orderBy_def stable_sort_by_def criteria_def compareAscending_def
  strict_eq_def js_lt_def to_number_def after_cursor_def obj_of_list_def

theorem limit_truncates_witness:
  "valid_ref (fst (orderBy sample_world 0 (Property ''x'') (Some ''desc''))) 1
   \<and> (case limit (fst (orderBy sample_world 0 (Property ''x'') (Some ''desc''))) 1 1 of (w', b) \<Rightarrow>
         results (deref w' b) = [(''b'', JObj [(''x'', JNum 2)])]
         \<and> length (results (deref w' b)) \<le> 1)
   \<and> (case limit (fst (orderBy sample_world 0 (Property ''x'') (Some ''desc''))) 1 0 of (w', b) \<Rightarrow>
         results (deref w' b)
           = [(''b'', JObj [(''x'', JNum 2)]), (''a'', JObj [(''x'', JNum 1)]),
              (''c'', JObj [(''x'', JNum 1)])])"
  using limit_truncates [of "fst (orderBy sample_world 0 (Property ''x'') (Some ''desc''))" 1 1
      None None None None]
    limit_truncates [of "fst (orderBy sample_world 0 (Property ''x'') (Some ''desc''))" 1 0
      None None None None]
  by (simp add: sample_world_eq eval_defs sort_defs)

subsection \<open>The cursor\<close>

lemma range_flags_started:
  "\<not> atEnd s \<Longrightarrow> atStart s \<or> next_flag s \<Longrightarrow>
   range_flags (Some i) s ks = replicate (length ks) True"
  by (induction ks arbitrary: s) (auto simp: inRange_def startFinder_def)

lemma range_flags_seeking:
  "\<not> atEnd s \<Longrightarrow> \<not> atStart s \<Longrightarrow> \<not> next_flag s \<Longrightarrow> i \<notin> set pre \<Longrightarrow>
   range_flags (Some i) s (pre @ i # post)
     = replicate (Suc (length pre)) False @ replicate (length post) True"
proof (induction pre arbitrary: s)
  case Nil
  then show ?case
    using range_flags_started [of "s\<lparr>atStart := False, next_flag := True\<rparr>" i post]
    by (simp add: inRange_def startFinder_def)
next
  case (Cons k pre)
  have "range_flags (Some i) (s\<lparr>atStart := False, next_flag := False\<rparr>) (pre @ i # post)
     = replicate (Suc (length pre)) False @ replicate (length post) True"
    using Cons.prems by (intro Cons.IH) auto
  moreover have "(k = i) = False" using Cons.prems by auto
  ultimately show ?case using Cons.prems by (simp add: inRange_def startFinder_def)
qed

lemma range_flags_absent:
  "\<not> atEnd s \<Longrightarrow> \<not> atStart s \<Longrightarrow> \<not> next_flag s \<Longrightarrow> i \<notin> set ks \<Longrightarrow>
   range_flags (Some i) s ks = replicate (length ks) False"
proof (induction ks arbitrary: s)
  case Nil
  then show ?case by simp
next
  case (Cons k ks)
  have "range_flags (Some i) (s\<lparr>atStart := False, next_flag := False\<rparr>) ks
     = replicate (length ks) False"
    using Cons.prems by (intro Cons.IH) auto
  moreover have "(k = i) = False" using Cons.prems by auto
  ultimately show ?case using Cons.prems by (simp add: inRange_def startFinder_def)
qed

lemma startAfter_eq:
  "orderedProperties (deref w a) \<noteq> [] \<Longrightarrow>
   startAfter w a (DocumentSnapshot i)
     = Inr (store (fst (clone w a)) (length (objs w))
              ((deref (fst (clone w a)) (length (objs w)))\<lparr>buildStartFinder := Some i\<rparr>),
            length (objs w))"
  by (simp add: startAfter_def split_beta clone_snd)

text \<open>
  C6. For every ordered query, \<open>startAfter(doc)\<close> with a document snapshot returns a query
  whose evaluation walks the receiver's traversal with a resolver started anew: along the
  keys of a walk, it answers \<open>false\<close> for every record up to and including the one whose key
  is the document's id and \<open>true\<close> for every later one (and \<open>false\<close> throughout when no record
  has that key), and the result is built, up to the limit, from the records strictly after
  that record. The evaluation is a function of the query, so that evaluating again gives
  the same result.
\<close>

theorem startAfter_exclusive:
  assumes "valid_ref w a" and "orderedProperties (deref w a) \<noteq> []"
  shows "case startAfter w a (DocumentSnapshot i) of
           Inl e \<Rightarrow> False
         | Inr (w', b) \<Rightarrow>
             traversal (deref w' b) = traversal (deref w a)
           \<and> (\<forall>pre post. i \<notin> set pre \<longrightarrow>
                 range_flags (buildStartFinder (deref w' b)) start_walk (pre @ i # post)
                   = replicate (Suc (length pre)) False @ replicate (length post) True)
           \<and> (\<forall>ks. i \<notin> set ks \<longrightarrow>
                 range_flags (buildStartFinder (deref w' b)) start_walk ks
                   = replicate (length ks) False)
           \<and> results (deref w' b)
               = obj_of_list (limit_take (limited (deref w a))
                   (drop 1 (dropWhile (\<lambda>r. fst r \<noteq> i) (traversal (deref w a)))))"
proof -
  let ?b = "length (objs w)"
  let ?q = "(deref (fst (clone w a)) ?b)\<lparr>buildStartFinder := Some i\<rparr>"
  have tr: "traversal ?q = traversal (deref w a)"
    by (rule traversal_cong) (simp_all add: clone_new)
  have fields: "limited ?q = limited (deref w a)" "buildStartFinder ?q = Some i"
    by (simp_all add: clone_new)
  have res: "results ?q = obj_of_list (limit_take (limited (deref w a))
                   (drop 1 (dropWhile (\<lambda>r. fst r \<noteq> i) (traversal (deref w a)))))"
    using results_walk [of ?q] by (simp only: tr fields after_cursor_def option.case)
  have f1: "\<forall>pre post. i \<notin> set pre \<longrightarrow>
                 range_flags (Some i) start_walk (pre @ i # post)
                   = replicate (Suc (length pre)) False @ replicate (length post) True"
    using range_flags_seeking [of start_walk i] by (simp add: start_walk_def)
  have f2: "\<forall>ks. i \<notin> set ks \<longrightarrow>
                 range_flags (Some i) start_walk ks = replicate (length ks) False"
    using range_flags_absent [of start_walk i] by (simp add: start_walk_def)
  have q: "deref (store (fst (clone w a)) ?b ?q) ?b = ?q"
    by (simp add: deref_store clone_length)
  show ?thesis
    unfolding startAfter_eq [OF assms(2)]
    using tr res f1 f2 by (simp only: q fields sum.case prod.case simp_thms)
qed

text \<open>
  Over the sample data ordered by \<open>x\<close>, the traversal is \<open>a, c, b\<close>; after the document \<open>a\<close> the
  walk answers \<open>false, true, true\<close> and the result holds \<open>c\<close> and \<open>b\<close>.
\<close>

theorem startAfter_exclusive_witness:
  "valid_ref (fst (orderBy sample_world 0 (Property ''x'') None)) 1
   \<and> orderedProperties (deref (fst (orderBy sample_world 0 (Property ''x'') None)) 1) \<noteq> []
   \<and> (case startAfter (fst (orderBy sample_world 0 (Property ''x'') None)) 1 (DocumentSnapshot ''a'') of
         Inl e \<Rightarrow> False
       | Inr (w', b) \<Rightarrow>
           map fst (traversal (deref w' b)) = [''a'', ''c'', ''b'']
         \<and> range_flags (buildStartFinder (deref w' b)) start_walk [''a'', ''c'', ''b'']
             = [False, True, True]
         \<and> results (deref w' b)
             = [(''c'', JObj [(''x'', JNum 1)]), (''b'', JObj [(''x'', JNum 2)])])"
  using startAfter_exclusive [of "fst (orderBy sample_world 0 (Property ''x'') None)" 1 "''a''"]
  by (simp add: sample_world_eq eval_defs sort_defs startAfter_def limit_take_def)

subsection \<open>Ordering\<close>

lemma index_world_eq:
  "index_world =
     \<lparr>objs = [\<lparr>errs = [], path = ''rooms'', ident = None, flushDelay = DelayFalse, queue = 0,
               parent = None, firestore = None, children = [], orderedProperties = [],
               orderedDirections = [], limited = 0, buildStartFinder = None,
               data = Some index_data\<rparr>],
      queues = [\<lparr>events = [], postFlush = []\<rparr>], promises = [], subs = [], console = [],
      calls = []\<rparr>"
  by (simp add: index_world_def MockFirestoreQuery_def empty_world_def setData_def
      cleanFirestoreData_def extractName_def)

text \<open>
  C7, at the failing input. Over \<open>{'1':{x:2}, '2':{x:1}}\<close>, \<open>orderBy('x')\<close> sorts the walk into
  \<open>2, 1\<close> (ascending by \<open>x\<close>, the default direction), and the result object, assigned in this
  order, lists the record \<open>1\<close> with \<open>x = 2\<close> before the record \<open>2\<close> with \<open>x = 1\<close>.
\<close>

theorem orderBy_index_keys_unsorted:
  "js_object index_data
   \<and> (case orderBy index_world 0 (Property ''x'') None of (w', b) \<Rightarrow>
         orderedDirections (deref w' b) = [''asc'']
       \<and> traversal (deref w' b)
           = [(''2'', JObj [(''x'', JNum 1)]), (''1'', JObj [(''x'', JNum 2)])]
       \<and> results (deref w' b)
           = [(''1'', JObj [(''x'', JNum 2)]), (''2'', JObj [(''x'', JNum 1)])])"
  by (simp add: index_world_eq index_data_def eval_defs sort_defs index_val_def digit_val_def)

subsection \<open>The receiver of a builder call\<close>

lemma orderBy_eq:
  "orderBy w a p direction
   = (store (fst (clone w a)) (length (objs w))
        ((deref (fst (clone w a)) (length (objs w)))
           \<lparr>orderedProperties := orderedProperties (deref (fst (clone w a)) (length (objs w))) @ [p],
            orderedDirections := orderedDirections (deref (fst (clone w a)) (length (objs w))) @
              [case direction of None \<Rightarrow> ''asc'' | Some dir \<Rightarrow> if dir = [] then ''asc'' else dir]\<rparr>),
      length (objs w))"
  by (simp add: orderBy_def split_beta clone_snd Let_def)









subsection \<open>Auto-flush\<close>

lemma only_flags_refl: "only_flags d w w"
  by (simp add: only_flags_def list_all2_same)

lemma only_flags_trans:
  assumes "only_flags d w w1" "only_flags d w1 w2"
  shows "only_flags d w w2"
proof -
  have "list_all2 (\<lambda>q q'. q' = q \<or> q' = q\<lparr>flushDelay := d\<rparr>) (objs w) (objs w1)"
    and "list_all2 (\<lambda>q q'. q' = q \<or> q' = q\<lparr>flushDelay := d\<rparr>) (objs w1) (objs w2)"
    using assms by (simp_all add: only_flags_def)
  then have rel: "list_all2 (\<lambda>q q'. q' = q \<or> q' = q\<lparr>flushDelay := d\<rparr>) (objs w) (objs w2)"
    by (rule list_all2_trans [rotated]) auto
  have "w2 = w\<lparr>objs := objs w2\<rparr>"
  proof -
    have "w2 = w1\<lparr>objs := objs w2\<rparr>" using assms(2) by (simp add: only_flags_def)
    moreover have "w1 = w\<lparr>objs := objs w1\<rparr>" using assms(1) by (simp add: only_flags_def)
    ultimately have "w2 = (w\<lparr>objs := objs w1\<rparr>)\<lparr>objs := objs w2\<rparr>" by simp
    then show ?thesis by simp
  qed
  with rel show ?thesis by (simp add: only_flags_def)
qed

lemma only_flags_length: "only_flags d w w' \<Longrightarrow> length (objs w') = length (objs w)"
  by (auto simp: only_flags_def dest: list_all2_lengthD)

lemma only_flags_nth:
  "only_flags d w w' \<Longrightarrow> x < length (objs w) \<Longrightarrow>
   deref w' x = deref w x \<or> deref w' x = (deref w x)\<lparr>flushDelay := d\<rparr>"
  by (auto simp: only_flags_def deref_def list_all2_conv_all_nth)

lemma only_flags_keeps:
  "only_flags d w w' \<Longrightarrow> valid_ref w x \<Longrightarrow> flushDelay (deref w x) = d \<Longrightarrow>
   flushDelay (deref w' x) = d"
  using only_flags_nth [of d w w' x] by (auto simp: valid_ref_def)

lemma only_flags_fields:
  "only_flags d w w' \<Longrightarrow> valid_ref w x \<Longrightarrow>
   queue (deref w' x) = queue (deref w x) \<and> parent (deref w' x) = parent (deref w x)
   \<and> children (deref w' x) = children (deref w x) \<and> data (deref w' x) = data (deref w x)
   \<and> (flushDelay (deref w' x) = flushDelay (deref w x) \<or> flushDelay (deref w' x) = d)"
  using only_flags_nth [of d w w' x] by (auto simp: valid_ref_def)

lemma only_flags_valid: "only_flags d w w' \<Longrightarrow> valid_ref w' x = valid_ref w x"
  by (simp add: valid_ref_def only_flags_length)

lemma only_flags_wf:
  assumes "only_flags d w w'" "wf_store w"
  shows "wf_store w'"
proof -
  have len: "length (objs w') = length (objs w)" using assms(1) by (rule only_flags_length)
  have "\<forall>x < length (objs w'). children (objs w' ! x) = children (objs w ! x)
          \<and> parent (objs w' ! x) = parent (objs w ! x)"
    using only_flags_fields [OF assms(1)] by (simp add: valid_ref_def deref_def len)
  then show ?thesis
    using assms(2) by (auto simp: wf_store_def list_all_length len split: option.splits)
qed

lemma filter_length_rel:
  "list_all2 (\<lambda>x y. P y \<longrightarrow> P x) xs ys \<Longrightarrow> length (filter P ys) \<le> length (filter P xs)"
  by (induction rule: list_all2_induct) auto

lemma only_flags_count: "only_flags d w w' \<Longrightarrow> flag_count d w' \<le> flag_count d w"
proof -
  assume "only_flags d w w'"
  then have "list_all2 (\<lambda>q q'. flushDelay q' \<noteq> d \<longrightarrow> flushDelay q \<noteq> d) (objs w) (objs w')"
    by (auto simp: only_flags_def elim!: list_all2_mono)
  then show ?thesis
    unfolding flag_count_def by (rule filter_length_rel)
qed

lemma store_flag_only_flags:
  "only_flags d w (store w a ((deref w a)\<lparr>flushDelay := d\<rparr>))"
proof (cases "a < length (objs w)")
  case True
  then show ?thesis
    by (auto simp: only_flags_def store_def deref_def list_all2_conv_all_nth nth_list_update)
next
  case False
  then show ?thesis by (simp add: store_def only_flags_refl list_update_beyond)
qed

lemma filter_length_update:
  "a < length xs \<Longrightarrow> P (xs ! a) \<Longrightarrow> \<not> P y \<Longrightarrow>
   Suc (length (filter P (xs[a := y]))) = length (filter P xs)"
proof (induction xs arbitrary: a)
  case Nil
  then show ?case by simp
next
  case (Cons x xs)
  then show ?case by (cases a) auto
qed

lemma store_flag_count:
  "valid_ref w a \<Longrightarrow> flushDelay (deref w a) \<noteq> d \<Longrightarrow>
   Suc (flag_count d (store w a ((deref w a)\<lparr>flushDelay := d\<rparr>))) = flag_count d w"
  using filter_length_update [of a "objs w" "\<lambda>q. flushDelay q \<noteq> d" "(objs w ! a)\<lparr>flushDelay := d\<rparr>"]
  by (simp add: flag_count_def store_def deref_def valid_ref_def)

lemma thread_only_flags:
  assumes "\<And>c w0 w0'. f c w0 = Some w0' \<Longrightarrow> only_flags d w0 w0'"
  shows "thread f cs w1 = Some w2 \<Longrightarrow> only_flags d w1 w2"
proof (induction cs arbitrary: w1)
  case Nil
  then show ?case by (simp add: only_flags_refl)
next
  case (Cons c cs)
  then obtain wm where m: "f c w1 = Some wm" "thread f cs wm = Some w2"
    by (auto split: option.splits)
  show ?case
    using assms [OF m(1)] Cons.IH [OF m(2)] by (rule only_flags_trans)
qed

lemma thread_member:
  assumes "\<And>c w0 w0'. f c w0 = Some w0' \<Longrightarrow> only_flags d w0 w0'"
  shows "thread f cs w1 = Some w2 \<Longrightarrow> c \<in> set cs \<Longrightarrow>
         \<exists>wa wb. only_flags d w1 wa \<and> f c wa = Some wb \<and> only_flags d wb w2"
proof (induction cs arbitrary: w1)
  case Nil
  then show ?case by simp
next
  case (Cons c' cs)
  then obtain wm where m: "f c' w1 = Some wm" "thread f cs wm = Some w2"
    by (auto split: option.splits)
  have step: "only_flags d w1 wm" using assms [OF m(1)] .
  show ?case
  proof (cases "c = c'")
    case True
    have "only_flags d wm w2" using assms m(2) by (rule thread_only_flags)
    then show ?thesis using m(1) True only_flags_refl by blast
  next
    case False
    then have "c \<in> set cs" using Cons.prems(2) by simp
    from Cons.IH [OF m(2) this] obtain wa wb
      where "only_flags d wm wa" "f c wa = Some wb" "only_flags d wb w2" by blast
    then show ?thesis using step only_flags_trans by blast
  qed
qed

lemma autoFlush_rec_only_flags:
  "autoFlush_rec n w a d = Some w' \<Longrightarrow> only_flags d w w'"
proof (induction n arbitrary: w a w')
  case 0
  then show ?case by simp
next
  case (Suc n)
  show ?case
  proof (cases "flushDelay (deref w a) \<noteq> d")
    case False
    then show ?thesis using Suc.prems by (simp add: autoFlush_step_def only_flags_refl)
  next
    case True
    let ?w1 = "store w a ((deref w a)\<lparr>flushDelay := d\<rparr>)"
    from Suc.prems True obtain w2 where
      t: "thread (\<lambda>child w'. autoFlush_rec n w' child d) (map snd (children (deref ?w1 a))) ?w1 = Some w2"
      and p: "(case parent (deref w2 a) of None \<Rightarrow> Some w2 | Some pa \<Rightarrow> autoFlush_rec n w2 pa d) = Some w'"
      by (auto simp: autoFlush_step_def Let_def split: option.splits)
    have s1: "only_flags d w ?w1" by (rule store_flag_only_flags)
    have s2: "only_flags d ?w1 w2"
      using t by (rule thread_only_flags [rotated]) (rule Suc.IH)
    have s3: "only_flags d w2 w'"
      using p Suc.IH by (auto simp: only_flags_refl split: option.splits)
    from s1 s2 s3 show ?thesis by (blast intro: only_flags_trans)
  qed
qed

lemma autoFlush_rec_receiver:
  assumes "autoFlush_rec n w a d = Some w'" "valid_ref w a"
  shows "flushDelay (deref w' a) = d"
proof (cases n)
  case 0
  then show ?thesis using assms by simp
next
  case (Suc m)
  show ?thesis
  proof (cases "flushDelay (deref w a) \<noteq> d")
    case False
    then show ?thesis using assms Suc by (simp add: autoFlush_step_def)
  next
    case True
    let ?w1 = "store w a ((deref w a)\<lparr>flushDelay := d\<rparr>)"
    from assms(1) True Suc obtain w2 where
      t: "thread (\<lambda>child w'. autoFlush_rec m w' child d) (map snd (children (deref ?w1 a))) ?w1 = Some w2"
      and p: "(case parent (deref w2 a) of None \<Rightarrow> Some w2 | Some pa \<Rightarrow> autoFlush_rec m w2 pa d) = Some w'"
      by (auto simp: autoFlush_step_def Let_def split: option.splits)
    have s2: "only_flags d ?w1 w2"
      using t by (rule thread_only_flags [rotated]) (rule autoFlush_rec_only_flags)
    have s3: "only_flags d w2 w'"
      using p autoFlush_rec_only_flags by (auto simp: only_flags_refl split: option.splits)
    have v1: "valid_ref ?w1 a" using assms(2) by (simp add: valid_ref_def store_def)
    have "flushDelay (deref ?w1 a) = d"
      using assms(2) by (simp add: deref_store valid_ref_def)
    then show ?thesis
      using only_flags_keeps [OF only_flags_trans [OF s2 s3] v1] by simp
  qed
qed

lemma autoFlush_rec_relatives:
  assumes "autoFlush_rec n w a d = Some w'" "valid_ref w a" "flushDelay (deref w a) \<noteq> d"
  shows "(\<forall>c \<in> snd ` set (children (deref w a)). valid_ref w c \<longrightarrow> flushDelay (deref w' c) = d)
       \<and> (\<forall>pa. parent (deref w a) = Some pa \<longrightarrow> valid_ref w pa \<longrightarrow> flushDelay (deref w' pa) = d)"
proof (cases n)
  case 0
  then show ?thesis using assms by simp
next
  case (Suc m)
  let ?w1 = "store w a ((deref w a)\<lparr>flushDelay := d\<rparr>)"
  from assms(1,3) Suc obtain w2 where
    t: "thread (\<lambda>child w'. autoFlush_rec m w' child d) (map snd (children (deref ?w1 a))) ?w1 = Some w2"
    and p: "(case parent (deref w2 a) of None \<Rightarrow> Some w2 | Some pa \<Rightarrow> autoFlush_rec m w2 pa d) = Some w'"
    by (auto simp: autoFlush_step_def Let_def split: option.splits)
  have s1: "only_flags d w ?w1" by (rule store_flag_only_flags)
  have s2: "only_flags d ?w1 w2"
    using t by (rule thread_only_flags [rotated]) (rule autoFlush_rec_only_flags)
  have s3: "only_flags d w2 w'"
    using p autoFlush_rec_only_flags by (auto simp: only_flags_refl split: option.splits)
  have s12: "only_flags d w w2" using s1 s2 by (rule only_flags_trans)
  have ch: "children (deref ?w1 a) = children (deref w a)"
    using assms(2) by (simp add: deref_store valid_ref_def)
  have kids: "flushDelay (deref w' c) = d"
    if c: "c \<in> snd ` set (children (deref w a))" "valid_ref w c" for c
  proof -
    have "c \<in> set (map snd (children (deref ?w1 a)))" using c(1) by (simp add: ch)
    moreover have "\<And>c w0 w0'. autoFlush_rec m w0 c d = Some w0' \<Longrightarrow> only_flags d w0 w0'"
      by (rule autoFlush_rec_only_flags)
    ultimately have "\<exists>wa wb. only_flags d ?w1 wa \<and> autoFlush_rec m wa c d = Some wb
        \<and> only_flags d wb w2"
      using thread_member [of "\<lambda>child w'. autoFlush_rec m w' child d" d _ ?w1 w2 c] t by blast
    then obtain wa wb where ab: "only_flags d ?w1 wa" "autoFlush_rec m wa c d = Some wb"
      "only_flags d wb w2" by blast
    have va: "valid_ref wa c"
      using c(2) only_flags_valid [OF only_flags_trans [OF s1 ab(1)]] by simp
    have "flushDelay (deref wb c) = d" using ab(2) va by (rule autoFlush_rec_receiver)
    moreover have "valid_ref wb c"
      using va only_flags_valid [OF autoFlush_rec_only_flags [OF ab(2)]] by simp
    ultimately show ?thesis
      using only_flags_keeps [OF only_flags_trans [OF ab(3) s3]] by simp
  qed
  have par: "flushDelay (deref w' pa) = d"
    if pa: "parent (deref w a) = Some pa" "valid_ref w pa" for pa
  proof -
    have "parent (deref w2 a) = Some pa"
      using only_flags_fields [OF s12 assms(2)] pa(1) by simp
    then have call: "autoFlush_rec m w2 pa d = Some w'" using p by simp
    have "valid_ref w2 pa" using pa(2) only_flags_valid [OF s12] by simp
    with call show ?thesis by (rule autoFlush_rec_receiver)
  qed
  from kids par show ?thesis by blast
qed

lemma thread_total:
  assumes "\<And>c w0. c \<in> set cs \<Longrightarrow> I w0 \<Longrightarrow> \<exists>w0'. f c w0 = Some w0' \<and> I w0'" and "I w1"
  shows "\<exists>w2. thread f cs w1 = Some w2 \<and> I w2"
  using assms
proof (induction cs arbitrary: w1)
  case Nil
  then show ?case by simp
next
  case (Cons c cs)
  from Cons.prems(1) [of c w1] Cons.prems(2) obtain wm where m: "f c w1 = Some wm" "I wm"
    by auto
  have "\<exists>w2. thread f cs wm = Some w2 \<and> I w2"
    using Cons.prems(1) m(2) by (intro Cons.IH) auto
  then show ?case using m(1) by simp
qed

lemma wf_store_child:
  "wf_store w \<Longrightarrow> valid_ref w a \<Longrightarrow> c \<in> snd ` set (children (deref w a)) \<Longrightarrow> valid_ref w c"
  by (auto simp: wf_store_def list_all_iff valid_ref_def deref_def)

lemma wf_store_parent:
  "wf_store w \<Longrightarrow> valid_ref w a \<Longrightarrow> parent (deref w a) = Some pa \<Longrightarrow> valid_ref w pa"
  by (auto simp: wf_store_def list_all_iff valid_ref_def deref_def split: option.splits)

lemma flag_count_zero:
  "flag_count d w = 0 \<Longrightarrow> valid_ref w a \<Longrightarrow> flushDelay (deref w a) = d"
  by (auto simp: flag_count_def valid_ref_def deref_def filter_empty_conv)

lemma autoFlush_rec_Suc:
  "autoFlush_rec (Suc n) w a d =
     (if flushDelay (deref w a) \<noteq> d
      then (case thread (\<lambda>child w'. autoFlush_rec n w' child d)
                  (map snd (children (deref (store w a ((deref w a)\<lparr>flushDelay := d\<rparr>)) a)))
                  (store w a ((deref w a)\<lparr>flushDelay := d\<rparr>)) of
              None \<Rightarrow> None
            | Some w2 \<Rightarrow>
                (case parent (deref w2 a) of
                   None \<Rightarrow> Some w2
                 | Some pa \<Rightarrow> autoFlush_rec n w2 pa d))
      else Some w)"
  by (simp add: autoFlush_step_def Let_def)

lemma autoFlush_rec_total:
  "wf_store w \<Longrightarrow> valid_ref w a \<Longrightarrow> flag_count d w \<le> k \<Longrightarrow>
   \<exists>w'. autoFlush_rec (Suc k) w a d = Some w'"
proof (induction k arbitrary: w a)
  case 0
  then have "flushDelay (deref w a) = d" using flag_count_zero [of d w a] by simp
  then show ?case by (simp add: autoFlush_step_def)
next
  case (Suc k)
  show ?case
  proof (cases "flushDelay (deref w a) = d")
    case True
    then show ?thesis by (simp add: autoFlush_step_def)
  next
    case False
    let ?w1 = "store w a ((deref w a)\<lparr>flushDelay := d\<rparr>)"
    let ?I = "\<lambda>w0. only_flags d ?w1 w0"
    have s1: "only_flags d w ?w1" by (rule store_flag_only_flags)
    have c1: "flag_count d ?w1 \<le> k"
      using store_flag_count [OF Suc.prems(2) False] Suc.prems(3) by simp
    have ch: "children (deref ?w1 a) = children (deref w a)"
      using Suc.prems(2) by (simp add: deref_store valid_ref_def)
    have call: "\<exists>w0'. autoFlush_rec (Suc k) w0 x d = Some w0' \<and> ?I w0'"
      if x: "valid_ref w x" and i: "?I w0" for x w0
    proof -
      have all: "only_flags d w w0" using s1 i by (rule only_flags_trans)
      have "wf_store w0" using all Suc.prems(1) by (rule only_flags_wf)
      moreover have "valid_ref w0 x" using x only_flags_valid [OF all] by simp
      moreover have "flag_count d w0 \<le> k" using only_flags_count [OF i] c1 by simp
      ultimately obtain w0' where r: "autoFlush_rec (Suc k) w0 x d = Some w0'"
        using Suc.IH by blast
      have "?I w0'" using i autoFlush_rec_only_flags [OF r] by (rule only_flags_trans)
      with r show ?thesis by blast
    qed
    have "\<exists>w2. thread (\<lambda>child w'. autoFlush_rec (Suc k) w' child d)
              (map snd (children (deref ?w1 a))) ?w1 = Some w2 \<and> ?I w2"
    proof (rule thread_total)
      show "?I ?w1" by (rule only_flags_refl)
    next
      fix c w0
      assume "c \<in> set (map snd (children (deref ?w1 a)))" and i: "?I w0"
      then have "valid_ref w c"
        using wf_store_child [OF Suc.prems(1,2), of c] by (simp add: ch)
      then show "\<exists>w0'. autoFlush_rec (Suc k) w0 c d = Some w0' \<and> ?I w0'"
        using i by (rule call)
    qed
    then obtain w2 where t: "thread (\<lambda>child w'. autoFlush_rec (Suc k) w' child d)
              (map snd (children (deref ?w1 a))) ?w1 = Some w2" and i2: "?I w2" by blast
    have p: "parent (deref w2 a) = parent (deref w a)"
      using only_flags_fields [OF only_flags_trans [OF s1 i2] Suc.prems(2)] by simp
    have "\<exists>w'. (case parent (deref w2 a) of None \<Rightarrow> Some w2
                 | Some pa \<Rightarrow> autoFlush_rec (Suc k) w2 pa d) = Some w'"
    proof (cases "parent (deref w a)")
      case None
      then show ?thesis by (simp add: p)
    next
      case (Some pa)
      then have "valid_ref w pa" using wf_store_parent [OF Suc.prems(1,2)] by simp
      then show ?thesis using call [OF _ i2] Some by (auto simp: p)
    qed
    then obtain w' where "(case parent (deref w2 a) of None \<Rightarrow> Some w2
                 | Some pa \<Rightarrow> autoFlush_rec (Suc k) w2 pa d) = Some w'" by blast
    then have "autoFlush_rec (Suc (Suc k)) w a d = Some w'"
      using False t by (subst autoFlush_rec_Suc) (simp del: autoFlush_rec.simps)
    then show ?thesis by blast
  qed
qed

lemma constructed_under_new:
  "constructed_under w par (fst (MockFirestoreQuery w p d par name))
     (snd (MockFirestoreQuery w p d par name))"
  by (cases par)
     (simp_all add: constructed_under_def MockFirestoreQuery_def Let_def deref_def setData_def)

lemma constructed_under_clone:
  "constructed_under w (parent (deref w a)) (fst (clone w a)) (length (objs w))"
  by (cases "parent (deref w a)") (simp_all add: constructed_under_def clone_new)

lemma constructed_under_store:
  assumes "constructed_under w par w1 b" "b < length (objs w1)"
    "parent q = parent (deref w1 b)" "queue q = queue (deref w1 b)"
    "flushDelay q = flushDelay (deref w1 b)"
  shows "constructed_under w par (store w1 b q) b"
  using assms by (auto simp: constructed_under_def deref_store split: option.splits)

lemma constructed_under_console:
  "constructed_under w par w1 b \<Longrightarrow> constructed_under w par (w1\<lparr>console := c\<rparr>) b"
  by (auto simp: constructed_under_def deref_def split: option.splits)

lemma constructed_under_where:
  "constructed_under w (parent (deref w a)) (fst (where w a pr operator v)) (snd (where w a pr operator v))"
  by (simp add: where_eq Let_def constructed_under_console constructed_under_clone
      constructed_under_store clone_length setData_def)

lemma neighbours_same:
  "only_flags d w w' \<Longrightarrow> valid_ref w x \<Longrightarrow> neighbours w' x = neighbours w x"
  using only_flags_fields [of d w w' x] by (simp add: neighbours_def)

lemma wf_store_neighbour:
  assumes "wf_store w" and "valid_ref w x" and "y \<in> set (neighbours w x)"
  shows "valid_ref w y"
proof -
  from assms(3) have "y \<in> snd ` set (children (deref w x)) \<or> parent (deref w x) = Some y"
    by (cases "parent (deref w x)") (simp_all add: neighbours_def, blast)
  then show ?thesis
    using wf_store_child [OF assms(1,2)] wf_store_parent [OF assms(1,2)] by blast
qed

lemma only_flags_differs:
  "only_flags d w w' \<Longrightarrow> valid_ref w x \<Longrightarrow> flushDelay (deref w' x) \<noteq> d \<Longrightarrow>
   flushDelay (deref w x) \<noteq> d"
  using only_flags_keeps [of d w w' x] by blast

lemma spreads_differs: "spreads w d a x \<Longrightarrow> flushDelay (deref w x) \<noteq> d"
  by (induction rule: spreads.induct) simp_all

lemma spreads_valid: "spreads w d a x \<Longrightarrow> wf_store w \<Longrightarrow> valid_ref w a \<Longrightarrow> valid_ref w x"
  by (induction rule: spreads.induct) (auto intro: wf_store_neighbour)

lemma sweeps_refl: "sweeps d w w"
  by (simp add: sweeps_def only_flags_refl)

lemma sweepsD:
  "sweeps d w w' \<Longrightarrow> valid_ref w x \<Longrightarrow> flushDelay (deref w x) \<noteq> d \<Longrightarrow>
   flushDelay (deref w' x) = d \<Longrightarrow> y \<in> set (neighbours w x) \<Longrightarrow> flushDelay (deref w' y) = d"
  by (auto simp: sweeps_def valid_ref_def list_all_iff)

lemma sweeps_only_flags: "sweeps d w w' \<Longrightarrow> only_flags d w w'"
  by (simp add: sweeps_def)

lemma sweeps_trans:
  assumes a: "sweeps d w w1" and b: "sweeps d w1 w2" and wf: "wf_store w"
  shows "sweeps d w w2"
proof -
  have o1: "only_flags d w w1" and o2: "only_flags d w1 w2"
    using a b by (simp_all add: sweeps_def)
  have o: "only_flags d w w2" using o1 o2 by (rule only_flags_trans)
  have "flushDelay (deref w2 y) = d"
    if x: "valid_ref w x" "flushDelay (deref w x) \<noteq> d" "flushDelay (deref w2 x) = d"
      and y: "y \<in> set (neighbours w x)" for x y
  proof (cases "flushDelay (deref w1 x) = d")
    case True
    have "flushDelay (deref w1 y) = d" using a x(1,2) True y by (rule sweepsD)
    moreover have "valid_ref w1 y"
      using wf_store_neighbour [OF wf x(1) y] only_flags_valid [OF o1] by simp
    ultimately show ?thesis using only_flags_keeps [OF o2] by simp
  next
    case False
    have "valid_ref w1 x" using x(1) only_flags_valid [OF o1] by simp
    moreover have "y \<in> set (neighbours w1 x)" using y neighbours_same [OF o1 x(1)] by simp
    ultimately show ?thesis using b False x(3) sweepsD by blast
  qed
  then show ?thesis
    using o by (auto simp: sweeps_def list_all_iff valid_ref_def)
qed

lemma thread_sweeps:
  assumes "\<And>c w0 w0'. c \<in> set cs \<Longrightarrow> wf_store w0 \<Longrightarrow> length (objs w0) = length (objs w1) \<Longrightarrow>
             f c w0 = Some w0' \<Longrightarrow> sweeps d w0 w0'"
    and "thread f cs w1 = Some w2" and "wf_store w1"
  shows "sweeps d w1 w2"
  using assms
proof (induction cs arbitrary: w1)
  case Nil
  then show ?case by (simp add: sweeps_refl)
next
  case (Cons c cs)
  from Cons.prems(2) obtain wm where m: "f c w1 = Some wm" "thread f cs wm = Some w2"
    by (auto split: option.splits)
  have s: "sweeps d w1 wm" using Cons.prems(1) [of c w1 wm] Cons.prems(3) m(1) by simp
  have o: "only_flags d w1 wm" using s by (rule sweeps_only_flags)
  have wfm: "wf_store wm" using o Cons.prems(3) by (rule only_flags_wf)
  have len: "length (objs wm) = length (objs w1)" using o by (rule only_flags_length)
  have "sweeps d wm w2"
  proof (rule Cons.IH [OF _ m(2) wfm])
    fix c' w0 w0'
    assume "c' \<in> set cs" "wf_store w0" "length (objs w0) = length (objs wm)" "f c' w0 = Some w0'"
    then show "sweeps d w0 w0'" using Cons.prems(1) [of c' w0 w0'] len by simp
  qed
  with s show ?case using Cons.prems(3) by (rule sweeps_trans)
qed

lemma autoFlush_rec_sweeps:
  "autoFlush_rec n w a d = Some w' \<Longrightarrow> wf_store w \<Longrightarrow> valid_ref w a \<Longrightarrow> sweeps d w w'"
proof (induction n arbitrary: w a w')
  case 0
  then show ?case by simp
next
  case (Suc n)
  show ?case
  proof (cases "flushDelay (deref w a) \<noteq> d")
    case False
    then show ?thesis using Suc.prems by (simp add: autoFlush_step_def sweeps_refl)
  next
    case True
    let ?w1 = "store w a ((deref w a)\<lparr>flushDelay := d\<rparr>)"
    from Suc.prems(1) True obtain w2 where
      t: "thread (\<lambda>child w'. autoFlush_rec n w' child d) (map snd (children (deref ?w1 a))) ?w1 = Some w2"
      and p: "(case parent (deref w2 a) of None \<Rightarrow> Some w2 | Some pa \<Rightarrow> autoFlush_rec n w2 pa d) = Some w'"
      by (auto simp: autoFlush_step_def Let_def split: option.splits)
    have s1: "only_flags d w ?w1" by (rule store_flag_only_flags)
    have wf1: "wf_store ?w1" using s1 Suc.prems(2) by (rule only_flags_wf)
    have ch: "children (deref ?w1 a) = children (deref w a)"
      using Suc.prems(3) by (simp add: deref_store valid_ref_def)
    have len1: "length (objs ?w1) = length (objs w)" by (simp add: store_def)
    have t_sw: "sweeps d ?w1 w2"
    proof (rule thread_sweeps [OF _ t wf1])
      fix c w0 w0'
      assume c: "c \<in> set (map snd (children (deref ?w1 a)))" and wf0: "wf_store w0"
        and len: "length (objs w0) = length (objs ?w1)" and r: "autoFlush_rec n w0 c d = Some w0'"
      have "valid_ref w c" using wf_store_child [OF Suc.prems(2,3), of c] c by (simp add: ch)
      then have "valid_ref w0 c" using len len1 by (simp add: valid_ref_def)
      with r wf0 show "sweeps d w0 w0'" by (rule Suc.IH)
    qed
    have o12: "only_flags d w w2" using s1 sweeps_only_flags [OF t_sw] by (rule only_flags_trans)
    have wf2: "wf_store w2" using o12 Suc.prems(2) by (rule only_flags_wf)
    have par: "parent (deref w2 a) = parent (deref w a)"
      using only_flags_fields [OF o12 Suc.prems(3)] by simp
    have p_sw: "sweeps d w2 w'"
    proof (cases "parent (deref w a)")
      case None
      then show ?thesis using p par by (simp add: sweeps_refl)
    next
      case (Some pa)
      then have r: "autoFlush_rec n w2 pa d = Some w'" using p par by simp
      have "valid_ref w pa" using wf_store_parent [OF Suc.prems(2,3) Some] .
      then have "valid_ref w2 pa" using only_flags_valid [OF o12] by simp
      with r wf2 show ?thesis by (rule Suc.IH)
    qed
    have sw1: "sweeps d ?w1 w'" using t_sw p_sw wf1 by (rule sweeps_trans)
    have o: "only_flags d w w'" using s1 sweeps_only_flags [OF sw1] by (rule only_flags_trans)
    have "flushDelay (deref w' y) = d"
      if x: "valid_ref w x" "flushDelay (deref w x) \<noteq> d" "flushDelay (deref w' x) = d"
        and y: "y \<in> set (neighbours w x)" for x y
    proof (cases "x = a")
      case True
      have vy: "valid_ref w y" using wf_store_neighbour [OF Suc.prems(2) x(1) y] .
      from y True have "y \<in> snd ` set (children (deref w a)) \<or> parent (deref w a) = Some y"
        by (auto simp: neighbours_def split: option.splits)
      then show ?thesis
        using autoFlush_rec_relatives [OF Suc.prems(1,3) \<open>flushDelay (deref w a) \<noteq> d\<close>] vy
        by blast
    next
      case False
      then have same: "deref ?w1 x = deref w x" by (simp add: deref_store_other)
      have "valid_ref ?w1 x" using x(1) by (simp add: valid_ref_def store_def)
      moreover have "flushDelay (deref ?w1 x) \<noteq> d" using x(2) same by simp
      moreover have "y \<in> set (neighbours ?w1 x)" using y neighbours_same [OF s1 x(1)] by simp
      ultimately show ?thesis using sw1 x(3) sweepsD by blast
    qed
    then show ?thesis
      using o by (auto simp: sweeps_def list_all_iff valid_ref_def)
  qed
qed

lemma spreads_from_neighbour:
  assumes "spreads v d c x" and o: "only_flags d w v" and wf: "wf_store w" and a: "valid_ref w a"
    and fa: "flushDelay (deref w a) \<noteq> d" and c: "c \<in> set (neighbours w a)"
  shows "spreads w d a x"
  using assms(1)
proof (induction rule: spreads.induct)
  case start
  have vc: "valid_ref w c" using wf a c by (rule wf_store_neighbour)
  have "flushDelay (deref w c) \<noteq> d" using o vc start by (rule only_flags_differs)
  then show ?case using spreads.start [OF fa] c spreads.onward by blast
next
  case (onward x y)
  have vx: "valid_ref w x" using onward.IH wf a by (rule spreads_valid)
  have y: "y \<in> set (neighbours w x)" using onward.hyps(2) neighbours_same [OF o vx] by simp
  have vy: "valid_ref w y" using wf vx y by (rule wf_store_neighbour)
  have "flushDelay (deref w y) \<noteq> d" using o vy onward.hyps(3) by (rule only_flags_differs)
  then show ?case using onward.IH y spreads.onward by blast
qed

lemma thread_flagged:
  "thread (\<lambda>child w'. autoFlush_rec n w' child d) cs v = Some v' \<Longrightarrow>
   flushDelay (deref v x) \<noteq> d \<Longrightarrow> flushDelay (deref v' x) = d \<Longrightarrow>
   \<exists>c wa wb. c \<in> set cs \<and> only_flags d v wa \<and> autoFlush_rec n wa c d = Some wb
      \<and> flushDelay (deref wa x) \<noteq> d \<and> flushDelay (deref wb x) = d"
proof (induction cs arbitrary: v)
  case Nil
  then show ?case by simp
next
  case (Cons c cs)
  from Cons.prems(1) obtain wm where m: "autoFlush_rec n v c d = Some wm"
    "thread (\<lambda>child w'. autoFlush_rec n w' child d) cs wm = Some v'"
    by (auto split: option.splits)
  have o: "only_flags d v wm" using m(1) by (rule autoFlush_rec_only_flags)
  show ?case
  proof (cases "flushDelay (deref wm x) = d")
    case True
    then show ?thesis using m(1) Cons.prems(2) only_flags_refl [of d v] by auto
  next
    case False
    from Cons.IH [OF m(2) False Cons.prems(3)] obtain c' wa wb where
      "c' \<in> set cs" "only_flags d wm wa" "autoFlush_rec n wa c' d = Some wb"
      "flushDelay (deref wa x) \<noteq> d" "flushDelay (deref wb x) = d" by blast
    then show ?thesis using only_flags_trans [OF o] by auto
  qed
qed

lemma autoFlush_rec_within:
  "autoFlush_rec n w a d = Some w' \<Longrightarrow> wf_store w \<Longrightarrow> valid_ref w a \<Longrightarrow> valid_ref w x \<Longrightarrow>
   flushDelay (deref w x) \<noteq> d \<Longrightarrow> flushDelay (deref w' x) = d \<Longrightarrow> spreads w d a x"
proof (induction n arbitrary: w a w')
  case 0
  then show ?case by simp
next
  case (Suc n)
  have fa: "flushDelay (deref w a) \<noteq> d"
    using Suc.prems(1,5,6) by (auto simp: autoFlush_step_def split: if_splits)
  let ?w1 = "store w a ((deref w a)\<lparr>flushDelay := d\<rparr>)"
  from Suc.prems(1) fa obtain w2 where
    t: "thread (\<lambda>child w'. autoFlush_rec n w' child d) (map snd (children (deref ?w1 a))) ?w1 = Some w2"
    and p: "(case parent (deref w2 a) of None \<Rightarrow> Some w2 | Some pa \<Rightarrow> autoFlush_rec n w2 pa d) = Some w'"
    by (auto simp: autoFlush_step_def Let_def split: option.splits)
  have s1: "only_flags d w ?w1" by (rule store_flag_only_flags)
  have ch: "children (deref ?w1 a) = children (deref w a)"
    using Suc.prems(3) by (simp add: deref_store valid_ref_def)
  have o2: "only_flags d ?w1 w2"
    using t by (rule thread_only_flags [rotated]) (rule autoFlush_rec_only_flags)
  have o12: "only_flags d w w2" using s1 o2 by (rule only_flags_trans)
  have par: "parent (deref w2 a) = parent (deref w a)"
    using only_flags_fields [OF o12 Suc.prems(3)] by simp
  show ?case
  proof (cases "x = a")
    case True
    then show ?thesis using fa spreads.start by simp
  next
    case False
    then have x1: "flushDelay (deref ?w1 x) \<noteq> d" using Suc.prems(5) by (simp add: deref_store_other)
    show ?thesis
    proof (cases "flushDelay (deref w2 x) = d")
      case True
      from thread_flagged [OF t x1 True]
      obtain c wa wb where c: "c \<in> set (map snd (children (deref ?w1 a)))"
        and oa: "only_flags d ?w1 wa" and r: "autoFlush_rec n wa c d = Some wb"
        and xa: "flushDelay (deref wa x) \<noteq> d" and xb: "flushDelay (deref wb x) = d" by blast
      have o: "only_flags d w wa" using s1 oa by (rule only_flags_trans)
      have cn: "c \<in> set (neighbours w a)" using c by (simp add: ch neighbours_def)
      have vc: "valid_ref w c" using Suc.prems(2,3) cn by (rule wf_store_neighbour)
      have "spreads wa d c x"
        using r only_flags_wf [OF o Suc.prems(2)] vc Suc.prems(4) xa xb
        by (intro Suc.IH) (simp_all add: only_flags_valid [OF o])
      then show ?thesis using o Suc.prems(2,3) fa cn by (rule spreads_from_neighbour)
    next
      case nf: False
      from p par nf Suc.prems(6) obtain pa where pa: "parent (deref w a) = Some pa"
        and r: "autoFlush_rec n w2 pa d = Some w'"
        by (cases "parent (deref w a)") auto
      have cn: "pa \<in> set (neighbours w a)" using pa by (simp add: neighbours_def)
      have vc: "valid_ref w pa" using Suc.prems(2,3) cn by (rule wf_store_neighbour)
      have "spreads w2 d pa x"
        using r only_flags_wf [OF o12 Suc.prems(2)] vc Suc.prems(4) nf Suc.prems(6)
        by (intro Suc.IH) (simp_all add: only_flags_valid [OF o12])
      then show ?thesis using o12 Suc.prems(2,3) fa cn by (rule spreads_from_neighbour)
    qed
  qed
qed

lemma autoFlush_rec_reaches:
  assumes r: "autoFlush_rec n w a d = Some w'" and wf: "wf_store w" and a: "valid_ref w a"
  shows "spreads w d a x \<Longrightarrow> flushDelay (deref w' x) = d"
proof (induction rule: spreads.induct)
  case start
  show ?case using r a by (rule autoFlush_rec_receiver)
next
  case (onward x y)
  have "sweeps d w w'" using r wf a by (rule autoFlush_rec_sweeps)
  moreover have "valid_ref w x" using onward.hyps(1) wf a by (rule spreads_valid)
  moreover have "flushDelay (deref w x) \<noteq> d" using onward.hyps(1) by (rule spreads_differs)
  ultimately show ?case using onward.IH onward.hyps(2) by (rule sweepsD)
qed

lemma autoFlush_rec_flags:
  assumes r: "autoFlush_rec n w a d = Some w'" and wf: "wf_store w" and a: "valid_ref w a"
    and x: "valid_ref w x"
  shows "flushDelay (deref w' x) = (if spreads w d a x then d else flushDelay (deref w x))"
proof (cases "spreads w d a x")
  case True
  then show ?thesis using autoFlush_rec_reaches [OF r wf a] by simp
next
  case False
  have "flushDelay (deref w' x) = flushDelay (deref w x)"
  proof (rule ccontr)
    assume ne: "flushDelay (deref w' x) \<noteq> flushDelay (deref w x)"
    have o: "only_flags d w w'" using r by (rule autoFlush_rec_only_flags)
    from only_flags_fields [OF o x] ne have "flushDelay (deref w' x) = d" by blast
    moreover from this ne have "flushDelay (deref w x) \<noteq> d" by simp
    ultimately have "spreads w d a x" using autoFlush_rec_within [OF r wf a x] by blast
    with False show False by simp
  qed
  with False show ?thesis by simp
qed

lemma linked_valid: "linked w a x \<Longrightarrow> wf_store w \<Longrightarrow> valid_ref w a \<Longrightarrow> valid_ref w x"
  by (induction rule: linked.induct) (auto intro: wf_store_neighbour)

lemma linked_spreads:
  assumes "\<forall>y. linked w a y \<longrightarrow> flushDelay (deref w y) \<noteq> d"
  shows "linked w a x \<Longrightarrow> spreads w d a x"
proof (induction rule: linked.induct)
  case here
  show ?case using assms linked.here by (intro spreads.start) blast
next
  case (along x y)
  have "linked w a y" using along.hyps(1,2) by (rule linked.along)
  then have "flushDelay (deref w y) \<noteq> d" using assms by blast
  with along.IH along.hyps(2) show ?case by (rule spreads.onward)
qed

lemma autoFlush_rec_uniform:
  assumes r: "autoFlush_rec n w a d = Some w'" and wf: "wf_store w" and a: "valid_ref w a"
    and same: "\<forall>y. linked w a y \<longrightarrow> flushDelay (deref w y) = flushDelay (deref w a)"
    and x: "linked w a x"
  shows "flushDelay (deref w' x) = d"
proof (cases "flushDelay (deref w a) = d")
  case True
  then have "flushDelay (deref w x) = d" using same x by simp
  moreover have "valid_ref w x" using x wf a by (rule linked_valid)
  ultimately show ?thesis using only_flags_keeps [OF autoFlush_rec_only_flags [OF r]] by simp
next
  case False
  then have "\<forall>y. linked w a y \<longrightarrow> flushDelay (deref w y) \<noteq> d" using same by simp
  then have "spreads w d a x" using x by (rule linked_spreads)
  then show ?thesis using autoFlush_rec_reaches [OF r wf a] by simp
qed

text \<open>
  C4, as amended. An object takes from the parent it is constructed with the parent's
  queue, by reference, and the value of the parent's flag; without a parent it gets a new
  queue and the flag \<open>false\<close>. A clone, and so the result of every builder call, is constructed
  with the receiver's parent. In a well-formed store \<open>autoFlush\<close> returns; it changes nothing
  but flags; afterwards an object has the delay as its flag exactly when it had it before or
  the call spreads to it from the receiver, from object to registered child and to parent
  for as long as the flags it meets are other than the delay. Every other flag is as it
  was. So the receiver has the delay, and when the receiver's flag was another one, so have
  its registered children and its parent; and when the objects linked to the receiver by
  child and parent references all had the same flag, all of them have the delay.
\<close>

theorem queue_and_flag_sharing:
  assumes "wf_store w" and "valid_ref w a"
  shows "constructed_under w par (fst (MockFirestoreQuery w p d par name))
           (snd (MockFirestoreQuery w p d par name))
       \<and> (case clone w a of (w', b) \<Rightarrow> constructed_under w (parent (deref w a)) w' b)
       \<and> (case where w a pr operator v of (w', b) \<Rightarrow>
            constructed_under w (parent (deref w a)) w' b)
       \<and> (case orderBy w a pr direction of (w', b) \<Rightarrow>
            constructed_under w (parent (deref w a)) w' b)
       \<and> (case limit w a n of (w', b) \<Rightarrow> constructed_under w (parent (deref w a)) w' b)
       \<and> (case startAfter w a (DocumentSnapshot i) of
            Inl e \<Rightarrow> True
          | Inr (w', b) \<Rightarrow> constructed_under w (parent (deref w a)) w' b)
       \<and> (\<exists>fuel. autoFlush fuel w a delay \<noteq> None)
       \<and> (\<forall>fuel w'. autoFlush fuel w a delay = Some w' \<longrightarrow>
             only_flags (case delay of None \<Rightarrow> DelayTrue | Some x \<Rightarrow> x) w w'
           \<and> (\<forall>x. valid_ref w x \<longrightarrow>
                 flushDelay (deref w' x) =
                   (if spreads w (case delay of None \<Rightarrow> DelayTrue | Some x \<Rightarrow> x) a x
                    then (case delay of None \<Rightarrow> DelayTrue | Some x \<Rightarrow> x)
                    else flushDelay (deref w x)))
           \<and> flushDelay (deref w' a) = (case delay of None \<Rightarrow> DelayTrue | Some x \<Rightarrow> x)
           \<and> (flushDelay (deref w a) \<noteq> (case delay of None \<Rightarrow> DelayTrue | Some x \<Rightarrow> x) \<longrightarrow>
                (\<forall>c \<in> snd ` set (children (deref w a)).
                   flushDelay (deref w' c) = (case delay of None \<Rightarrow> DelayTrue | Some x \<Rightarrow> x))
              \<and> (\<forall>pa. parent (deref w a) = Some pa \<longrightarrow>
                   flushDelay (deref w' pa) = (case delay of None \<Rightarrow> DelayTrue | Some x \<Rightarrow> x)))
           \<and> ((\<forall>y. linked w a y \<longrightarrow> flushDelay (deref w y) = flushDelay (deref w a)) \<longrightarrow>
                (\<forall>x. linked w a x \<longrightarrow>
                   flushDelay (deref w' x) = (case delay of None \<Rightarrow> DelayTrue | Some x \<Rightarrow> x))))"
proof -
  let ?D = "case delay of None \<Rightarrow> DelayTrue | Some x \<Rightarrow> x"
  let ?par = "parent (deref w a)"
  let ?w1 = "fst (clone w a)"
  let ?b = "length (objs w)"
  have b: "?b < length (objs ?w1)" by (simp add: clone_length)
  have k0: "constructed_under w par (fst (MockFirestoreQuery w p d par name))
           (snd (MockFirestoreQuery w p d par name))"
    by (rule constructed_under_new)
  have cl: "constructed_under w ?par ?w1 ?b" by (rule constructed_under_clone)
  have k1: "case clone w a of (w', b) \<Rightarrow> constructed_under w ?par w' b"
    using cl clone_snd [of w a] by (simp add: split_beta)
  have k2: "case where w a pr operator v of (w', b) \<Rightarrow> constructed_under w ?par w' b"
    using constructed_under_where [of w a pr operator v] by (simp add: split_beta)
  have k3: "case orderBy w a pr direction of (w', b) \<Rightarrow> constructed_under w ?par w' b"
    unfolding orderBy_eq using cl b by (simp add: constructed_under_store)
  have k4: "case limit w a n of (w', b) \<Rightarrow> constructed_under w ?par w' b"
    unfolding limit_eq using cl b by (simp add: constructed_under_store)
  have k5: "case startAfter w a (DocumentSnapshot i) of
            Inl e \<Rightarrow> True
          | Inr (w', b) \<Rightarrow> constructed_under w ?par w' b"
  proof (cases "orderedProperties (deref w a) = []")
    case True
    then show ?thesis by (simp add: startAfter_def)
  next
    case False
    show ?thesis
      unfolding startAfter_eq [OF False] using cl b by (simp add: constructed_under_store)
  qed
  have k6: "\<exists>fuel. autoFlush fuel w a delay \<noteq> None"
    using autoFlush_rec_total [OF assms, of ?D "flag_count ?D w"]
    by (auto simp: autoFlush_def simp del: autoFlush_rec.simps)
  have k7: "\<forall>fuel w'. autoFlush fuel w a delay = Some w' \<longrightarrow>
             only_flags ?D w w'
           \<and> (\<forall>x. valid_ref w x \<longrightarrow>
                 flushDelay (deref w' x) = (if spreads w ?D a x then ?D else flushDelay (deref w x)))
           \<and> flushDelay (deref w' a) = ?D
           \<and> (flushDelay (deref w a) \<noteq> ?D \<longrightarrow>
                (\<forall>c \<in> snd ` set (children (deref w a)). flushDelay (deref w' c) = ?D)
              \<and> (\<forall>pa. parent (deref w a) = Some pa \<longrightarrow> flushDelay (deref w' pa) = ?D))
           \<and> ((\<forall>y. linked w a y \<longrightarrow> flushDelay (deref w y) = flushDelay (deref w a)) \<longrightarrow>
                (\<forall>x. linked w a x \<longrightarrow> flushDelay (deref w' x) = ?D))"
  proof (intro allI impI)
    fix fuel w'
    assume "autoFlush fuel w a delay = Some w'"
    then have r: "autoFlush_rec fuel w a ?D = Some w'" by (simp add: autoFlush_def)
    have rel: "flushDelay (deref w a) \<noteq> ?D \<longrightarrow>
                (\<forall>c \<in> snd ` set (children (deref w a)). flushDelay (deref w' c) = ?D)
              \<and> (\<forall>pa. parent (deref w a) = Some pa \<longrightarrow> flushDelay (deref w' pa) = ?D)"
      using autoFlush_rec_relatives [OF r assms(2)] wf_store_child [OF assms]
        wf_store_parent [OF assms] by blast
    have all: "\<forall>x. valid_ref w x \<longrightarrow>
        flushDelay (deref w' x) = (if spreads w ?D a x then ?D else flushDelay (deref w x))"
      using autoFlush_rec_flags [OF r assms] by blast
    have uni: "(\<forall>y. linked w a y \<longrightarrow> flushDelay (deref w y) = flushDelay (deref w a)) \<longrightarrow>
                (\<forall>x. linked w a x \<longrightarrow> flushDelay (deref w' x) = ?D)"
      using autoFlush_rec_uniform [OF r assms] by blast
    show "only_flags ?D w w'
           \<and> (\<forall>x. valid_ref w x \<longrightarrow>
                 flushDelay (deref w' x) = (if spreads w ?D a x then ?D else flushDelay (deref w x)))
           \<and> flushDelay (deref w' a) = ?D
           \<and> (flushDelay (deref w a) \<noteq> ?D \<longrightarrow>
                (\<forall>c \<in> snd ` set (children (deref w a)). flushDelay (deref w' c) = ?D)
              \<and> (\<forall>pa. parent (deref w a) = Some pa \<longrightarrow> flushDelay (deref w' pa) = ?D))
           \<and> ((\<forall>y. linked w a y \<longrightarrow> flushDelay (deref w y) = flushDelay (deref w a)) \<longrightarrow>
                (\<forall>x. linked w a x \<longrightarrow> flushDelay (deref w' x) = ?D))"
      using autoFlush_rec_only_flags [OF r] autoFlush_rec_receiver [OF r assms(2)] rel all uni
      by (intro conjI)
  qed
  from k0 k1 k2 k3 k4 k5 k6 k7 show ?thesis by (intro conjI)
qed

lemmas flag_defs =
  autoFlush_def autoFlush_step_def numeral_3_eq_3 limit_def clone_def MockFirestoreQuery_def
  Let_def store_def deref_def setData_def getData_def cleanFirestoreData_def extractName_def

lemma lineage_world_eq:
  "lineage_world =
     \<lparr>objs = [\<lparr>errs = [], path = ''Mock://'', ident = None, flushDelay = DelayFalse, queue = 0,
               parent = None, firestore = None, children = [(''houses'', 1)],
               orderedProperties = [], orderedDirections = [], limited = 0,
               buildStartFinder = None, data = None\<rparr>,
              \<lparr>errs = [], path = ''houses'', ident = Some ''houses'', flushDelay = DelayFalse,
               queue = 0, parent = Some 0, firestore = None, children = [(''rooms'', 2)],
               orderedProperties = [], orderedDirections = [], limited = 0,
               buildStartFinder = None, data = None\<rparr>,
              \<lparr>errs = [], path = ''rooms'', ident = Some ''rooms'', flushDelay = DelayFalse,
               queue = 0, parent = Some 1, firestore = None, children = [],
               orderedProperties = [], orderedDirections = [], limited = 0,
               buildStartFinder = None, data = Some sample_data\<rparr>],
      queues = [\<lparr>events = [], postFlush = []\<rparr>], promises = [], subs = [], console = [],
      calls = []\<rparr>"
  by (simp add: lineage_world_def MockFirestoreQuery_def empty_world_def setData_def
      cleanFirestoreData_def extractName_def Let_def deref_def store_def)


lemma cloned_lineage_eq:
  "cloned_lineage =
     \<lparr>objs = [\<lparr>errs = [], path = ''Mock://'', ident = None, flushDelay = DelayFalse, queue = 0,
               parent = None, firestore = None, children = [(''houses'', 1)],
               orderedProperties = [], orderedDirections = [], limited = 0,
               buildStartFinder = None, data = None\<rparr>,
              \<lparr>errs = [], path = ''houses'', ident = Some ''houses'', flushDelay = DelayFalse,
               queue = 0, parent = Some 0, firestore = None, children = [(''rooms'', 2)],
               orderedProperties = [], orderedDirections = [], limited = 0,
               buildStartFinder = None, data = None\<rparr>,
              \<lparr>errs = [], path = ''rooms'', ident = Some ''rooms'', flushDelay = DelayFalse,
               queue = 0, parent = Some 1, firestore = None, children = [],
               orderedProperties = [], orderedDirections = [], limited = 0,
               buildStartFinder = None, data = Some sample_data\<rparr>,
              \<lparr>errs = [], path = ''rooms'', ident = Some ''rooms'', flushDelay = DelayFalse,
               queue = 0, parent = Some 1, firestore = None, children = [],
               orderedProperties = [], orderedDirections = [], limited = 5,
               buildStartFinder = None, data = Some sample_data\<rparr>],
      queues = [\<lparr>events = [], postFlush = []\<rparr>], promises = [], subs = [], console = [],
      calls = []\<rparr>"
  by (simp add: cloned_lineage_def lineage_world_eq flag_defs)

lemma cloned_lineage_neighbours:
  "neighbours cloned_lineage 0 = [1] \<and> neighbours cloned_lineage 1 = [2, 0]
   \<and> neighbours cloned_lineage 2 = [1] \<and> neighbours cloned_lineage 3 = [1]"
  by (simp add: cloned_lineage_eq neighbours_def deref_def numeral_eq_Suc)

lemma cloned_lineage_spreads:
  "spreads cloned_lineage d 2 x \<Longrightarrow> x < 3"
proof (induction rule: spreads.induct)
  case start
  show ?case by simp
next
  case (onward x y)
  then have "x = 0 \<or> x = 1 \<or> x = 2" by auto
  then show ?case using onward.hyps(2) cloned_lineage_neighbours by auto
qed

lemma cloned_lineage_linked:
  "linked cloned_lineage 2 x \<Longrightarrow> x < 3"
proof (induction rule: linked.induct)
  case here
  show ?case by simp
next
  case (along x y)
  then have "x = 0 \<or> x = 1 \<or> x = 2" by auto
  then show ?case using along.hyps(2) cloned_lineage_neighbours by auto
qed

text \<open>
  On the store of three generations with a clone of the youngest: \<open>autoFlush(10)\<close> on the
  youngest, at address 2, reaches the parent and the grandparent and leaves the clone alone.
\<close>

theorem queue_and_flag_sharing_witness:
  "wf_store cloned_lineage \<and> valid_ref cloned_lineage 2
   \<and> (case clone cloned_lineage 2 of (w', b) \<Rightarrow>
         b = 4 \<and> parent (deref w' b) = Some 1 \<and> queue (deref w' b) = queue (deref cloned_lineage 1)
         \<and> flushDelay (deref w' b) = DelayFalse)
   \<and> (case autoFlush 5 cloned_lineage 2 (Some (DelayMs 10)) of
         None \<Rightarrow> False
       | Some w' \<Rightarrow>
           map (\<lambda>x. flushDelay (deref w' x)) [0, 1, 2, 3]
             = [DelayMs 10, DelayMs 10, DelayMs 10, DelayFalse])"
proof -
  let ?W = cloned_lineage
  let ?D = "DelayMs 10"
  have wf: "wf_store ?W" and v: "valid_ref ?W 2"
    by (simp_all add: cloned_lineage_eq wf_store_def valid_ref_def)
  have run: "autoFlush 5 ?W 2 (Some ?D) \<noteq> None"
    by (simp add: cloned_lineage_eq flag_defs numeral_eq_Suc)
  have cl: "snd (clone ?W 2) = 4" by (simp add: clone_snd cloned_lineage_eq)
  have p: "parent (deref ?W 2) = Some 1" by (simp add: cloned_lineage_eq deref_def)
  have f: "flushDelay (deref ?W 1) = DelayFalse" "flushDelay (deref ?W 3) = DelayFalse"
    by (simp_all add: cloned_lineage_eq deref_def)
  have d: "flushDelay (deref ?W 0) \<noteq> ?D" "flushDelay (deref ?W 1) \<noteq> ?D"
    "flushDelay (deref ?W 2) \<noteq> ?D"
    by (simp_all add: cloned_lineage_eq deref_def)
  have valid: "valid_ref ?W 0" "valid_ref ?W 1" "valid_ref ?W 3"
    by (simp_all add: cloned_lineage_eq valid_ref_def)
  have even: "\<forall>y. linked ?W 2 y \<longrightarrow> flushDelay (deref ?W y) = flushDelay (deref ?W 2)"
  proof (intro allI impI)
    fix y
    assume "linked ?W 2 y"
    then have "y < 3" by (rule cloned_lineage_linked)
    then have "y = 0 \<or> y = 1 \<or> y = 2" by auto
    then show "flushDelay (deref ?W y) = flushDelay (deref ?W 2)"
      by (auto simp: cloned_lineage_eq deref_def)
  qed
  have s2: "spreads ?W ?D 2 2" using d(3) by (rule spreads.start)
  have s1: "spreads ?W ?D 2 1"
    using s2 _ d(2) by (rule spreads.onward) (use cloned_lineage_neighbours in simp)
  have s3: "\<not> spreads ?W ?D 2 3" using cloned_lineage_spreads [of ?D 3] by auto
  note t = queue_and_flag_sharing [OF wf v, of None None None None "Property ''x''" "''==''" JNull
        None 0 "''a''" "Some ?D"]
  have "case clone ?W 2 of (w', b) \<Rightarrow> constructed_under ?W (parent (deref ?W 2)) w' b"
    by (rule t [THEN conjunct2, THEN conjunct1])
  then have c: "case clone ?W 2 of (w', b) \<Rightarrow>
         b = 4 \<and> parent (deref w' b) = Some 1 \<and> queue (deref w' b) = queue (deref ?W 1)
         \<and> flushDelay (deref w' b) = DelayFalse"
    using cl p f(1) by (simp add: split_beta constructed_under_def)
  obtain w' where r: "autoFlush 5 ?W 2 (Some ?D) = Some w'"
    using run by blast
  note after = t [THEN conjunct2, THEN conjunct2, THEN conjunct2, THEN conjunct2, THEN conjunct2,
        THEN conjunct2, THEN conjunct2, rule_format, OF r]
  have "\<forall>x. valid_ref ?W x \<longrightarrow>
          flushDelay (deref w' x) = (if spreads ?W ?D 2 x then ?D else flushDelay (deref ?W x))"
    using after by simp
  then have flags: "flushDelay (deref w' 1) = ?D" "flushDelay (deref w' 2) = ?D"
    "flushDelay (deref w' 3) = DelayFalse"
    using valid v s1 s2 s3 f(2) by simp_all
  have l1: "linked ?W 2 1"
    using linked.here by (rule linked.along) (use cloned_lineage_neighbours in simp)
  have l0: "linked ?W 2 0"
    using l1 by (rule linked.along) (use cloned_lineage_neighbours in simp)
  have "(\<forall>y. linked ?W 2 y \<longrightarrow> flushDelay (deref ?W y) = flushDelay (deref ?W 2)) \<longrightarrow>
          (\<forall>x. linked ?W 2 x \<longrightarrow> flushDelay (deref w' x) = ?D)"
    using after by simp
  then have "flushDelay (deref w' 0) = ?D" using even l0 by blast
  then show ?thesis
    using wf v c r flags by simp
qed

text \<open>
  C4 as stated fails for a clone. The clone of the query at address 2, made by \<open>limit\<close>, has
  the queue and the parent of that query, and \<open>autoFlush()\<close> on the grandparent sets the flag
  of the three generations but leaves the clone's \<open>false\<close>; and the clone of a query without a
  parent has a queue of its own.
\<close>

theorem autoFlush_skips_clone:
  "(case limit lineage_world 2 5 of (w1, c) \<Rightarrow>
      queue (deref w1 c) = queue (deref w1 2) \<and> parent (deref w1 c) = parent (deref w1 2)
      \<and> (case autoFlush 5 w1 0 None of
            None \<Rightarrow> False
          | Some w2 \<Rightarrow>
              flushDelay (deref w2 0) = DelayTrue \<and> flushDelay (deref w2 1) = DelayTrue
              \<and> flushDelay (deref w2 2) = DelayTrue \<and> flushDelay (deref w2 c) = DelayFalse))
   \<and> (case clone sample_world 0 of (w1, c) \<Rightarrow>
         queue (deref w1 0) = 0 \<and> queue (deref w1 c) = 1)"
  by (simp add: lineage_world_eq sample_world_eq flag_defs numeral_eq_Suc)

subsection \<open>Subscriptions\<close>

lemma extends_refl: "extends w w"
  by (simp add: extends_def list_all_iff)

lemma extends_trans:
  assumes "extends w w1" "extends w1 w2"
  shows "extends w w2"
proof -
  have le: "length (calls w) \<le> length (calls w1)" using assms(1) by (simp add: extends_def)
  have "take (length (calls w)) (calls w2)
      = take (length (calls w)) (take (length (calls w1)) (calls w2))"
    using le by (simp add: min_absorb1)
  also have "\<dots> = take (length (calls w)) (calls w1)"
    using assms(2) by (simp add: extends_def)
  also have "\<dots> = calls w" using assms(1) by (simp add: extends_def)
  finally have c: "take (length (calls w)) (calls w2) = calls w" .
  have rest: "length (calls w) \<le> length (calls w2)" "length (subs w) \<le> length (subs w2)"
    "\<forall>s < length (subs w).
       includeMetadataChanges (subs w2 ! s) = includeMetadataChanges (subs w ! s)
       \<and> sub_err (subs w2 ! s) = sub_err (subs w ! s)"
    using assms by (auto simp: extends_def list_all_iff)
  show ?thesis
    using c rest by (simp add: extends_def list_all_iff)
qed


lemma extends_same:
  "calls w' = calls w \<Longrightarrow> subs w' = subs w \<Longrightarrow> extends w w'"
  by (simp add: extends_def list_all_iff)

lemma deliveries_append: "deliveries s (cs @ cs') = deliveries s cs @ deliveries s cs'"
  by (induction s cs rule: deliveries.induct) auto

lemma deliveries_fresh: "list_all (\<lambda>c. sub_of c < n) cs \<Longrightarrow> n \<le> s \<Longrightarrow> deliveries s cs = []"
  by (induction s cs rule: deliveries.induct) (auto simp: sub_of_def)

lemma changing_snoc:
  "changing (ds @ [y]) = (changing ds \<and> (ds = [] \<or> \<not> isEqual (JObj y) (JObj (last ds))))"
  by (induction ds rule: changing.induct) (auto simp del: isEqual.simps)

lemma subs_okD:
  "subs_ok w \<Longrightarrow> refs_ok w" "subs_ok w \<Longrightarrow> s < length (subs w) \<Longrightarrow> sub_ok w s"
  by (auto simp: subs_ok_def list_all_iff)

lemma subs_okI:
  "refs_ok w \<Longrightarrow> (\<And>s. s < length (subs w) \<Longrightarrow> sub_ok w s) \<Longrightarrow> subs_ok w"
  by (auto simp: subs_ok_def list_all_iff)

lemma sub_ok_same:
  "calls w' = calls w \<Longrightarrow> subs w' = subs w \<Longrightarrow> sub_ok w' s = sub_ok w s"
  by (simp add: sub_ok_def)

lemma subs_ok_same:
  assumes "subs_ok w" "refs_ok w'" "calls w' = calls w" "subs w' = subs w"
  shows "subs_ok w'"
proof (rule subs_okI)
  show "refs_ok w'" by fact
next
  fix s
  assume "s < length (subs w')"
  then have "sub_ok w s" using assms(1,4) by (simp add: subs_okD(2))
  then show "sub_ok w' s" using sub_ok_same [OF assms(3,4)] by simp
qed

lemma refresh_cases:
  "refresh w s = w
   \<or> (\<exists>res snap. delivered snap = res
        \<and> (\<not> isEqual (JObj res) (JObj (context_data (subs w ! s))) \<or> includeMetadataChanges (subs w ! s))
        \<and> refresh w s = w\<lparr>calls := calls w @ [OnNext s snap],
                           subs := (subs w)[s := (subs w ! s)\<lparr>context_data := res\<rparr>]\<rparr>)"
proof (cases "\<not> isEqual (JObj (results (deref w (sub_query (subs w ! s)))))
                 (JObj (context_data (subs w ! s))) \<or> includeMetadataChanges (subs w ! s)")
  case False
  then show ?thesis by (simp add: refresh_def Let_def del: isEqual.simps)
next
  case True
  let ?res = "results (deref w (sub_query (subs w ! s)))"
  let ?snap = "QuerySnapshot (owner (deref w (sub_query (subs w ! s))) (sub_query (subs w ! s)))
     (Some ?res) (Some (context_data (subs w ! s)))"
  have "refresh w s = w\<lparr>calls := calls w @ [OnNext s ?snap],
                           subs := (subs w)[s := (subs w ! s)\<lparr>context_data := ?res\<rparr>]\<rparr>"
    using True by (simp add: refresh_def Let_def del: isEqual.simps)
  moreover have "delivered ?snap = ?res" by (simp add: delivered_def)
  ultimately show ?thesis using True by blast
qed

lemma list_all_update: "list_all P xs \<Longrightarrow> P y \<Longrightarrow> list_all P (xs[i := y])"
  using set_update_subset_insert [of xs i y] by (auto simp: list_all_iff)

lemma refs_ok_deliver:
  assumes "refs_ok w" "s < length (subs w)"
  shows "refs_ok (w\<lparr>calls := calls w @ [OnNext s snap],
                    subs := (subs w)[s := (subs w ! s)\<lparr>context_data := res\<rparr>]\<rparr>)"
proof -
  have "list_all (\<lambda>sub. sub_query sub < length (objs w)) (subs w)"
    using assms(1) by (simp add: refs_ok_def)
  then have "list_all (\<lambda>sub. sub_query sub < length (objs w))
      ((subs w)[s := (subs w ! s)\<lparr>context_data := res\<rparr>])"
    using assms(2) by (intro list_all_update) (simp_all add: list_all_length)
  then show ?thesis
    using assms by (simp add: refs_ok_def sub_of_def)
qed

lemma refresh_ok:
  assumes "subs_ok w" "s < length (subs w)"
  shows "subs_ok (refresh w s) \<and> extends w (refresh w s)"
proof -
  consider "refresh w s = w"
    | res snap where "delivered snap = res"
        "\<not> isEqual (JObj res) (JObj (context_data (subs w ! s))) \<or> includeMetadataChanges (subs w ! s)"
        "refresh w s = w\<lparr>calls := calls w @ [OnNext s snap],
                           subs := (subs w)[s := (subs w ! s)\<lparr>context_data := res\<rparr>]\<rparr>"
    using refresh_cases [of w s] by blast
  then show ?thesis
  proof cases
    case 1
    then show ?thesis using assms(1) by (simp add: extends_refl)
  next
    case 2
    let ?w' = "w\<lparr>calls := calls w @ [OnNext s snap],
                           subs := (subs w)[s := (subs w ! s)\<lparr>context_data := res\<rparr>]\<rparr>"
    have r: "refs_ok ?w'" using subs_okD(1) [OF assms(1)] assms(2) by (rule refs_ok_deliver)
    have each: "sub_ok ?w' t" if t: "t < length (subs ?w')" for t
    proof (cases "t = s")
      case True
      have old: "sub_ok w s" using assms by (rule subs_okD(2))
      have d: "deliveries s (calls ?w') = deliveries s (calls w) @ [res]"
        by (simp add: deliveries_append 2(1))
      have c: "(subs ?w') ! s = (subs w ! s)\<lparr>context_data := res\<rparr>"
        using assms(2) by simp
      have "\<not> includeMetadataChanges (subs w ! s) \<Longrightarrow> changing (deliveries s (calls w) @ [res])"
        using old 2(2)
        by (simp add: sub_ok_def Let_def changing_snoc del: isEqual.simps split: if_splits)
      then show ?thesis
        unfolding True sub_ok_def Let_def d c by (simp del: isEqual.simps)
    next
      case False
      have old: "sub_ok w t" using assms(1) t by (simp add: subs_okD(2))
      have d: "deliveries t (calls ?w') = deliveries t (calls w)"
        using False by (simp add: deliveries_append)
      have c: "(subs ?w') ! t = subs w ! t" using False by simp
      show ?thesis using old unfolding sub_ok_def Let_def d c .
    qed
    have keep: "includeMetadataChanges (subs ?w' ! t) = includeMetadataChanges (subs w ! t)
        \<and> sub_err (subs ?w' ! t) = sub_err (subs w ! t)" if "t < length (subs w)" for t
      using that by (cases "t = s") simp_all
    have e: "extends w ?w'"
      using keep by (simp add: extends_def list_all_iff)
    have "subs_ok ?w'" using r each by (intro subs_okI) simp_all
    with e show ?thesis by (simp add: 2(3))
  qed
qed

lemma obj_ok_mono:
  "obj_ok n m q \<Longrightarrow> n \<le> n' \<Longrightarrow> m \<le> m' \<Longrightarrow> obj_ok n' m' q"
  by (auto simp: obj_ok_def list_all_iff split: option.splits)

lemma queue_ok_mono:
  "queue_ok n m k \<Longrightarrow> n \<le> n' \<Longrightarrow> m \<le> m' \<Longrightarrow> queue_ok n' m' k"
  by (auto simp: queue_ok_def list_all_iff)

lemma promise_ok_mono: "promise_ok m pr \<Longrightarrow> m \<le> m' \<Longrightarrow> promise_ok m' pr"
  by (auto simp: promise_ok_def split: option.splits)

lemma list_all_mono: "list_all P xs \<Longrightarrow> (\<And>x. P x \<Longrightarrow> Q x) \<Longrightarrow> list_all Q xs"
  by (auto simp: list_all_iff)

lemma settle_ok:
  assumes "subs_ok w"
  shows "subs_ok (w\<lparr>promises := (promises w)[p := (promises w ! p)\<lparr>settled := x\<rparr>]\<rparr>)"
proof (cases "p < length (promises w)")
  case False
  then show ?thesis using assms by (simp add: list_update_beyond)
next
  case True
  let ?w' = "w\<lparr>promises := (promises w)[p := (promises w ! p)\<lparr>settled := x\<rparr>]\<rparr>"
  have r: "refs_ok w" using assms by (rule subs_okD(1))
  then have "list_all (promise_ok (length (subs w))) (promises w)" by (simp add: refs_ok_def)
  then have "list_all (promise_ok (length (subs w)))
      ((promises w)[p := (promises w ! p)\<lparr>settled := x\<rparr>])"
    using True by (intro list_all_update) (simp_all add: list_all_length promise_ok_def)
  then have "refs_ok ?w'" using r by (simp add: refs_ok_def)
  with assms show ?thesis by (rule subs_ok_same) simp_all
qed

lemma run_task_ok:
  assumes "subs_ok w" "task_promise t < length (promises w)"
  shows "subs_ok (run_task w t) \<and> extends w (run_task w t)
         \<and> length (promises (run_task w t)) = length (promises w)
         \<and> queues (run_task w t) = queues w \<and> objs (run_task w t) = objs w"
proof (cases t)
  case (GetTask self err p)
  have p: "p < length (promises w)" using assms(2) by (simp add: GetTask task_promise_def)
  show ?thesis
  proof (cases "err = JNull")
    case False
    then have "run_task w t = w\<lparr>promises := (promises w)[p := (promises w ! p)\<lparr>settled := Some (Rejected err)\<rparr>]\<rparr>"
      by (simp add: run_task_def GetTask Let_def)
    then show ?thesis using settle_ok [OF assms(1)] by (simp add: extends_same)
  next
    case True
    let ?snap = "if lodash_size (data (deref w self)) \<noteq> 0
                 then QuerySnapshot (owner (deref w self) self) (Some (results (deref w self))) None
                 else QuerySnapshot (owner (deref w self) self) None None"
    let ?w1 = "w\<lparr>promises := (promises w)[p := (promises w ! p)\<lparr>settled := Some (Resolved ?snap)\<rparr>]\<rparr>"
    have rt: "run_task w t = (case then_sub (promises w ! p) of None \<Rightarrow> ?w1 | Some s \<Rightarrow> refresh ?w1 s)"
      using True by (simp add: run_task_def GetTask Let_def)
    have ok1: "subs_ok ?w1" using assms(1) by (rule settle_ok)
    have e1: "extends w ?w1" by (simp add: extends_same)
    show ?thesis
    proof (cases "then_sub (promises w ! p)")
      case None
      then show ?thesis using ok1 e1 by (simp add: rt)
    next
      case (Some s)
      have "promise_ok (length (subs w)) (promises w ! p)"
        using subs_okD(1) [OF assms(1)] p by (simp add: refs_ok_def list_all_length)
      then have s: "s < length (subs ?w1)" using Some by (simp add: promise_ok_def)
      have fr: "promises (refresh ?w1 s) = promises ?w1 \<and> queues (refresh ?w1 s) = queues ?w1
          \<and> objs (refresh ?w1 s) = objs ?w1"
        by (simp add: refresh_def Let_def del: isEqual.simps)
      have "subs_ok (refresh ?w1 s) \<and> extends ?w1 (refresh ?w1 s)"
        using ok1 s by (rule refresh_ok)
      then show ?thesis
        using extends_trans [OF e1] fr by (simp add: rt Some)
    qed
  qed
qed

lemma foldl_run_task_ok:
  "subs_ok w \<Longrightarrow> list_all (\<lambda>t. task_promise t < length (promises w)) ts \<Longrightarrow>
   subs_ok (foldl run_task w ts) \<and> extends w (foldl run_task w ts)
   \<and> length (promises (foldl run_task w ts)) = length (promises w)
   \<and> queues (foldl run_task w ts) = queues w \<and> objs (foldl run_task w ts) = objs w"
proof (induction ts arbitrary: w)
  case Nil
  then show ?case by (simp add: extends_refl)
next
  case (Cons t ts)
  have one: "subs_ok (run_task w t) \<and> extends w (run_task w t)
         \<and> length (promises (run_task w t)) = length (promises w)
         \<and> queues (run_task w t) = queues w \<and> objs (run_task w t) = objs w"
    using Cons.prems by (intro run_task_ok) simp_all
  have rest: "subs_ok (foldl run_task (run_task w t) ts)
      \<and> extends (run_task w t) (foldl run_task (run_task w t) ts)
      \<and> length (promises (foldl run_task (run_task w t) ts)) = length (promises (run_task w t))
      \<and> queues (foldl run_task (run_task w t) ts) = queues (run_task w t)
      \<and> objs (foldl run_task (run_task w t) ts) = objs (run_task w t)"
    using Cons.prems one by (intro Cons.IH) simp_all
  show ?case
    using one rest extends_trans [of w "run_task w t" "foldl run_task (run_task w t) ts"]
    by simp
qed

lemma store_errs_ok:
  assumes "subs_ok w" "a < length (objs w)"
  shows "subs_ok (store w a ((deref w a)\<lparr>errs := e\<rparr>))"
proof -
  let ?w' = "store w a ((deref w a)\<lparr>errs := e\<rparr>)"
  have r: "refs_ok w" using assms(1) by (rule subs_okD(1))
  then have "list_all (obj_ok (length (objs w)) (length (queues w))) (objs w)"
    by (simp add: refs_ok_def)
  then have "list_all (obj_ok (length (objs w)) (length (queues w)))
      ((objs w)[a := (objs w ! a)\<lparr>errs := e\<rparr>])"
    using assms(2) by (intro list_all_update) (simp_all add: list_all_length obj_ok_def)
  then have "refs_ok ?w'" using r by (simp add: refs_ok_def store_def deref_def)
  with assms(1) show ?thesis by (rule subs_ok_same) (simp_all add: store_def)
qed

lemma push_ok:
  assumes "subs_ok w" "k < length (queues w)" "promise_ok (length (subs w)) pr"
  shows "subs_ok (w\<lparr>promises := promises w @ [pr],
                     queues := (queues w)[k := (queues w ! k)
                        \<lparr>events := events (queues w ! k) @ [GetTask a err (length (promises w))]\<rparr>]\<rparr>)"
proof -
  let ?w' = "w\<lparr>promises := promises w @ [pr],
                     queues := (queues w)[k := (queues w ! k)
                        \<lparr>events := events (queues w ! k) @ [GetTask a err (length (promises w))]\<rparr>]\<rparr>"
  have r: "refs_ok w" using assms(1) by (rule subs_okD(1))
  then have q: "list_all (queue_ok (length (promises w)) (length (subs w))) (queues w)"
    by (simp add: refs_ok_def)
  have q1: "list_all (queue_ok (Suc (length (promises w))) (length (subs w))) (queues w)"
    using q queue_ok_mono [of "length (promises w)" "length (subs w)" _
        "Suc (length (promises w))" "length (subs w)"]
    by (simp add: list_all_iff)
  have "queue_ok (Suc (length (promises w))) (length (subs w)) (queues w ! k)"
    using q1 assms(2) by (simp add: list_all_length)
  then have "queue_ok (Suc (length (promises w))) (length (subs w))
      ((queues w ! k)\<lparr>events := events (queues w ! k) @ [GetTask a err (length (promises w))]\<rparr>)"
    by (simp add: queue_ok_def task_promise_def)
  with q1 have "list_all (queue_ok (Suc (length (promises w))) (length (subs w)))
      ((queues w)[k := (queues w ! k)
          \<lparr>events := events (queues w ! k) @ [GetTask a err (length (promises w))]\<rparr>])"
    by (rule list_all_update)
  then have "refs_ok ?w'" using r assms(3) by (simp add: refs_ok_def)
  with assms(1) show ?thesis by (rule subs_ok_same) simp_all
qed

lemma get_with_ok:
  assumes good: "\<And>w k d w'. subs_ok w \<Longrightarrow> k < length (queues w) \<Longrightarrow> flush_fn w k d = Some w'
                   \<Longrightarrow> subs_ok w' \<and> extends w w'"
    and ok: "subs_ok w" and a: "a < length (objs w)"
    and waiting: "promise_ok (length (subs w)) \<lparr>settled = None, then_sub = waiting\<rparr>"
    and res: "get_with flush_fn w a waiting = Some (w', p)"
  shows "subs_ok w' \<and> extends w w'"
proof -
  let ?e = "filter (\<lambda>e. fst e \<noteq> ''get'') (errs (deref w a))"
  define err where "err = (if truthy (js_prop (errs (deref w a)) ''get'')
      then js_prop (errs (deref w a)) ''get'' else JNull)"
  let ?w1 = "store w a ((deref w a)\<lparr>errs := ?e\<rparr>)"
  let ?k = "queue (deref w a)"
  let ?w3 = "?w1\<lparr>promises := promises ?w1 @ [\<lparr>settled = None, then_sub = waiting\<rparr>],
                 queues := (queues ?w1)[?k := (queues ?w1 ! ?k)
                    \<lparr>events := events (queues ?w1 ! ?k) @ [GetTask a err (length (promises ?w1))]\<rparr>]\<rparr>"
  have ok1: "subs_ok ?w1" using ok a by (rule store_errs_ok)
  have "obj_ok (length (objs w)) (length (queues w)) (objs w ! a)"
    using subs_okD(1) [OF ok] a by (simp add: refs_ok_def list_all_length)
  then have k: "?k < length (queues ?w1)" by (simp add: obj_ok_def store_def deref_def)
  have w1: "promise_ok (length (subs ?w1)) \<lparr>settled = None, then_sub = waiting\<rparr>"
    using waiting by (simp add: store_def)
  have ok3: "subs_ok ?w3" using ok1 k w1 by (rule push_ok)
  have e3: "extends w ?w3" by (simp add: extends_same store_def)
  have k3: "?k < length (queues ?w3)" using k by simp
  have g: "get_with flush_fn w a waiting =
      (if flushDelay (deref w a) \<noteq> DelayFalse
       then (case flush_fn ?w3 ?k (flushDelay (deref w a)) of
               None \<Rightarrow> None | Some w4 \<Rightarrow> Some (w4, length (promises ?w1)))
       else Some (?w3, length (promises ?w1)))"
    using a by (simp add: get_with_def defer_with_def nextErr_def Let_def deref_store err_def deref_def
        store_def split: option.splits)
  show ?thesis
  proof (cases "flushDelay (deref w a) \<noteq> DelayFalse")
    case False
    have "get_with flush_fn w a waiting = Some (?w3, length (promises ?w1))"
      by (subst g) (use False in simp)
    with res have "Some (?w3, length (promises ?w1)) = Some (w', p)" by (simp only:)
    then have "w' = ?w3" by blast
    then show ?thesis using ok3 e3 by (simp only:)
  next
    case True
    have "get_with flush_fn w a waiting =
       (case flush_fn ?w3 ?k (flushDelay (deref w a)) of
               None \<Rightarrow> None | Some w4 \<Rightarrow> Some (w4, length (promises ?w1)))"
      by (subst g) (use True in simp)
    with res have "(case flush_fn ?w3 ?k (flushDelay (deref w a)) of
               None \<Rightarrow> None | Some w4 \<Rightarrow> Some (w4, length (promises ?w1))) = Some (w', p)"
      by (simp only:)
    then have "flush_fn ?w3 ?k (flushDelay (deref w a)) = Some w'"
      by (cases "flush_fn ?w3 ?k (flushDelay (deref w a))") (simp_all only: option.case, blast+)
    from good [OF ok3 k3 this] show ?thesis using extends_trans [OF e3] by blast
  qed
qed

lemma on_error_ok:
  assumes "subs_ok w" "s < length (subs w)"
  shows "subs_ok (w\<lparr>calls := calls w @ [OnError s e]\<rparr>)
         \<and> extends w (w\<lparr>calls := calls w @ [OnError s e]\<rparr>)"
proof -
  let ?w' = "w\<lparr>calls := calls w @ [OnError s e]\<rparr>"
  have r: "refs_ok ?w'"
    using subs_okD(1) [OF assms(1)] assms(2) by (simp add: refs_ok_def sub_of_def)
  have "sub_ok ?w' t" if "t < length (subs ?w')" for t
  proof -
    have "sub_ok w t" using assms(1) that by (simp add: subs_okD(2))
    then show ?thesis by (simp add: sub_ok_def Let_def deliveries_append)
  qed
  with r have "subs_ok ?w'" by (intro subs_okI) simp_all
  moreover have "extends w ?w'" by (simp add: extends_def list_all_iff)
  ultimately show ?thesis by simp
qed

lemma listener_ok:
  assumes good: "\<And>w k d w'. subs_ok w \<Longrightarrow> k < length (queues w) \<Longrightarrow> flush_fn w k d = Some w'
                   \<Longrightarrow> subs_ok w' \<and> extends w w'"
    and ok: "subs_ok w" and s: "s < length (subs w)"
    and res: "listener flush_fn s w = Some w'"
  shows "subs_ok w' \<and> extends w w'"
proof (cases "sub_err (subs w ! s) = JNull")
  case False
  then have "w' = w\<lparr>calls := calls w @ [OnError s (sub_err (subs w ! s))]\<rparr>"
    using res by (simp add: listener_def Let_def)
  then show ?thesis using on_error_ok [OF ok s] by simp
next
  case True
  then have "map_option fst (get_with flush_fn w (sub_query (subs w ! s)) (Some s)) = Some w'"
    using res by (simp add: listener_def Let_def)
  then obtain p where g: "get_with flush_fn w (sub_query (subs w ! s)) (Some s) = Some (w', p)"
    by auto
  have a: "sub_query (subs w ! s) < length (objs w)"
    using subs_okD(1) [OF ok] s by (simp add: refs_ok_def list_all_length)
  have pr: "promise_ok (length (subs w)) \<lparr>settled = None, then_sub = Some s\<rparr>"
    using s by (simp add: promise_ok_def)
  show ?thesis using good ok a pr g by (rule get_with_ok)
qed

lemma thread_ok:
  assumes "\<And>x w0 w0'. x \<in> set xs \<Longrightarrow> subs_ok w0 \<Longrightarrow> extends w w0 \<Longrightarrow> f x w0 = Some w0'
             \<Longrightarrow> subs_ok w0' \<and> extends w0 w0'"
  shows "subs_ok w1 \<Longrightarrow> extends w w1 \<Longrightarrow> thread f xs w1 = Some w2 \<Longrightarrow>
         subs_ok w2 \<and> extends w1 w2"
  using assms
proof (induction xs arbitrary: w1)
  case Nil
  then show ?case by (simp add: extends_refl)
next
  case (Cons x xs)
  from Cons.prems(3) obtain wm where m: "f x w1 = Some wm" "thread f xs wm = Some w2"
    by (auto split: option.splits)
  have one: "subs_ok wm \<and> extends w1 wm"
    using Cons.prems(4) [of x w1 wm] Cons.prems(1,2) m(1) by simp
  then have em: "extends w wm" using Cons.prems(2) extends_trans by blast
  have "subs_ok w2 \<and> extends wm w2"
    using one em m(2) Cons.prems(4) by (intro Cons.IH) auto
  then show ?case using one extends_trans by blast
qed

lemma extends_length: "extends w w' \<Longrightarrow> length (subs w) \<le> length (subs w')"
  by (simp add: extends_def)

lemma clear_events_ok:
  assumes "subs_ok w" "k < length (queues w)"
  shows "subs_ok (w\<lparr>queues := (queues w)[k := (queues w ! k)\<lparr>events := []\<rparr>]\<rparr>)"
proof -
  let ?w' = "w\<lparr>queues := (queues w)[k := (queues w ! k)\<lparr>events := []\<rparr>]\<rparr>"
  have r: "refs_ok w" using assms(1) by (rule subs_okD(1))
  then have q: "list_all (queue_ok (length (promises w)) (length (subs w))) (queues w)"
    by (simp add: refs_ok_def)
  then have "queue_ok (length (promises w)) (length (subs w)) (queues w ! k)"
    using assms(2) by (simp add: list_all_length)
  then have "queue_ok (length (promises w)) (length (subs w)) ((queues w ! k)\<lparr>events := []\<rparr>)"
    by (simp add: queue_ok_def)
  with q have "list_all (queue_ok (length (promises w)) (length (subs w)))
      ((queues w)[k := (queues w ! k)\<lparr>events := []\<rparr>])"
    by (rule list_all_update)
  then have "refs_ok ?w'" using r by (simp add: refs_ok_def)
  with assms(1) show ?thesis by (rule subs_ok_same) simp_all
qed

lemma flush_step_ok:
  assumes good: "\<And>w k d w'. subs_ok w \<Longrightarrow> k < length (queues w) \<Longrightarrow> flush_fn w k d = Some w'
                   \<Longrightarrow> subs_ok w' \<and> extends w w'"
    and ok: "subs_ok w" and k: "k < length (queues w)"
    and res: "flush_step flush_fn w k delay = Some w'"
  shows "subs_ok w' \<and> extends w w'"
proof (cases "\<exists>n. delay = DelayMs n")
  case True
  then have "w' = w" using res by (auto simp: flush_step_def)
  then show ?thesis using ok by (simp add: extends_refl)
next
  case False
  let ?w1 = "foldl run_task w (events (queues w ! k))"
  let ?w2 = "?w1\<lparr>queues := (queues ?w1)[k := (queues ?w1 ! k)\<lparr>events := []\<rparr>]\<rparr>"
  have t: "thread (listener flush_fn) (postFlush (queues ?w2 ! k)) ?w2 = Some w'"
    using res False by (cases delay) (simp_all add: flush_step_def Let_def)
  have qk: "queue_ok (length (promises w)) (length (subs w)) (queues w ! k)"
    using subs_okD(1) [OF ok] k by (simp add: refs_ok_def list_all_length)
  then have tasks: "list_all (\<lambda>t. task_promise t < length (promises w)) (events (queues w ! k))"
    by (simp add: queue_ok_def)
  have f: "subs_ok ?w1 \<and> extends w ?w1
     \<and> length (promises ?w1) = length (promises w)
     \<and> queues ?w1 = queues w \<and> objs ?w1 = objs w"
    using ok tasks by (rule foldl_run_task_ok)
  have ok2: "subs_ok ?w2" using f k by (intro clear_events_ok) simp_all
  have e12: "extends ?w1 ?w2" by (simp add: extends_same)
  have e2: "extends w ?w2" using f e12 extends_trans by blast
  have ls: "list_all (\<lambda>s. s < length (subs w)) (postFlush (queues ?w2 ! k))"
    using qk k f by (simp add: queue_ok_def)
  have step: "subs_ok w0' \<and> extends w0 w0'"
    if "s \<in> set (postFlush (queues ?w2 ! k))" "subs_ok w0" "extends ?w2 w0"
      "listener flush_fn s w0 = Some w0'" for s w0 w0'
  proof -
    have "s < length (subs w)" using ls that(1) by (simp add: list_all_iff)
    then have "s < length (subs w0)"
      using extends_length [OF e2] extends_length [OF that(3)] by simp
    with good that(2) show ?thesis using that(4) by (rule listener_ok)
  qed
  have "subs_ok w' \<and> extends ?w2 w'"
  proof (rule thread_ok [where w = ?w2 and f = "listener flush_fn"])
    show "subs_ok ?w2" by (rule ok2)
    show "extends ?w2 ?w2" by (rule extends_refl)
    show "thread (listener flush_fn) (postFlush (queues ?w2 ! k)) ?w2 = Some w'" by (rule t)
  next
    fix s w0 w0'
    assume "s \<in> set (postFlush (queues ?w2 ! k))" "subs_ok w0" "extends ?w2 w0"
      "listener flush_fn s w0 = Some w0'"
    then show "subs_ok w0' \<and> extends w0 w0'" by (rule step)
  qed
  then show ?thesis using e2 extends_trans by blast
qed

lemma queue_flush_ok:
  "subs_ok w \<Longrightarrow> k < length (queues w) \<Longrightarrow> queue_flush n w k d = Some w' \<Longrightarrow>
   subs_ok w' \<and> extends w w'"
proof (induction n arbitrary: w k d w')
  case 0
  then show ?case by simp
next
  case (Suc n)
  have "flush_step (queue_flush n) w k d = Some w'" using Suc.prems(3) by simp
  with Suc.IH Suc.prems(1,2) show ?case by (rule flush_step_ok)
qed

lemma store_same_ok:
  assumes "subs_ok w" "b < length (objs w)" "queue q = queue (deref w b)"
    "parent q = parent (deref w b)" "children q = children (deref w b)"
  shows "subs_ok (store w b q)"
proof -
  have r: "refs_ok w" using assms(1) by (rule subs_okD(1))
  then have all: "list_all (obj_ok (length (objs w)) (length (queues w))) (objs w)"
    by (simp add: refs_ok_def)
  then have "obj_ok (length (objs w)) (length (queues w)) (objs w ! b)"
    using assms(2) by (simp add: list_all_length)
  then have "obj_ok (length (objs w)) (length (queues w)) q"
    using assms(3,4,5) by (simp add: obj_ok_def deref_def)
  with all have "list_all (obj_ok (length (objs w)) (length (queues w))) ((objs w)[b := q])"
    by (rule list_all_update)
  then have "refs_ok (store w b q)" using r by (simp add: refs_ok_def store_def)
  with assms(1) show ?thesis by (rule subs_ok_same) (simp_all add: store_def)
qed

lemma console_ok: "subs_ok w \<Longrightarrow> subs_ok (w\<lparr>console := c\<rparr>)"
  by (rule subs_ok_same) (simp_all add: subs_okD(1) [unfolded refs_ok_def] refs_ok_def)

lemma clone_ok:
  assumes "subs_ok w" "a < length (objs w)"
  shows "subs_ok (fst (clone w a))"
proof -
  let ?n = "length (objs w)" and ?m = "length (queues w)"
  have r: "refs_ok w" using assms(1) by (rule subs_okD(1))
  then have all: "list_all (obj_ok ?n ?m) (objs w)" by (simp add: refs_ok_def)
  then have oa: "obj_ok ?n ?m (objs w ! a)" using assms(2) by (simp add: list_all_length)
  have all': "list_all (obj_ok (Suc ?n) (Suc ?m)) (objs w)"
    using all obj_ok_mono [of ?n ?m _ "Suc ?n" "Suc ?m"] by (simp add: list_all_iff)
  have all'': "list_all (obj_ok (Suc ?n) ?m) (objs w)"
    using all obj_ok_mono [of ?n ?m _ "Suc ?n" ?m] by (simp add: list_all_iff)
  have subq: "list_all (\<lambda>sub. sub_query sub < Suc ?n) (subs w)"
    using r by (auto simp: refs_ok_def list_all_iff)
  show ?thesis
  proof (cases "parent (deref w a)")
    case None
    have "refs_ok (fst (clone w a))"
      using r all' subq None
      by (simp add: clone_eq refs_ok_def obj_ok_def queue_ok_def)
    with assms(1) show ?thesis by (rule subs_ok_same) (simp_all add: clone_eq None)
  next
    case (Some pa)
    then have "pa < ?n" using oa by (simp add: obj_ok_def deref_def)
    then have "obj_ok ?n ?m (objs w ! pa)" using all by (simp add: list_all_length)
    then have "queue (deref w pa) < ?m" by (simp add: obj_ok_def deref_def)
    then have "refs_ok (fst (clone w a))"
      using r all'' subq Some \<open>pa < ?n\<close>
      by (simp add: clone_eq refs_ok_def obj_ok_def)
    with assms(1) show ?thesis by (rule subs_ok_same) (simp_all add: clone_eq Some)
  qed
qed

lemma clone_same:
  "calls (fst (clone w a)) = calls w \<and> subs (fst (clone w a)) = subs w"
  by (cases "parent (deref w a)") (simp_all add: clone_eq)

lemma built_ok:
  assumes "subs_ok w" "a < length (objs w)"
    "queue q = queue (deref (fst (clone w a)) (length (objs w)))"
    "parent q = parent (deref (fst (clone w a)) (length (objs w)))"
    "children q = children (deref (fst (clone w a)) (length (objs w)))"
  shows "subs_ok (store (fst (clone w a)) (length (objs w)) q)"
  using clone_ok [OF assms(1,2)] assms(3,4,5)
  by (intro store_same_ok) (simp_all add: clone_length)

lemma only_flags_ok:
  assumes "subs_ok w" "only_flags d w w'"
  shows "subs_ok w'"
proof -
  have r: "refs_ok w" using assms(1) by (rule subs_okD(1))
  have w': "w' = w\<lparr>objs := objs w'\<rparr>" using assms(2) by (simp add: only_flags_def)
  have len: "length (objs w') = length (objs w)" using assms(2) by (rule only_flags_length)
  have "obj_ok (length (objs w)) (length (queues w)) (objs w' ! x)" if x: "x < length (objs w)" for x
  proof -
    have "obj_ok (length (objs w)) (length (queues w)) (objs w ! x)"
      using r x by (simp add: refs_ok_def list_all_length)
    then show ?thesis
      using only_flags_fields [OF assms(2), of x] x
      by (simp add: obj_ok_def deref_def valid_ref_def)
  qed
  then have "list_all (obj_ok (length (objs w)) (length (queues w))) (objs w')"
    by (simp add: list_all_length len)
  then have "refs_ok (w\<lparr>objs := objs w'\<rparr>)" using r by (simp add: refs_ok_def len)
  then have "refs_ok w'" using w' by simp
  with assms(1) show ?thesis
    by (rule subs_ok_same) (subst w', simp)+
qed

lemma subscribe_ok:
  assumes ok: "subs_ok w" and k: "k < length (queues w)"
    and q: "sub_query new < length (objs w)"
    and cb: "sub_of cb = length (subs w)"
    and d: "if sub_err new = JNull then deliveries (length (subs w)) [cb] = [context_data new]
            else deliveries (length (subs w)) [cb] = []"
  shows "subs_ok (w\<lparr>subs := subs w @ [new], calls := calls w @ [cb],
                     queues := (queues w)[k := (queues w ! k)
                        \<lparr>postFlush := postFlush (queues w ! k) @ [length (subs w)]\<rparr>]\<rparr>)"
proof -
  let ?s = "length (subs w)"
  let ?w' = "w\<lparr>subs := subs w @ [new], calls := calls w @ [cb],
                     queues := (queues w)[k := (queues w ! k)
                        \<lparr>postFlush := postFlush (queues w ! k) @ [?s]\<rparr>]\<rparr>"
  have r: "refs_ok w" using ok by (rule subs_okD(1))
  have q1: "list_all (queue_ok (length (promises w)) (Suc ?s)) (queues w)"
    using r queue_ok_mono [of "length (promises w)" ?s _ "length (promises w)" "Suc ?s"]
    by (simp add: refs_ok_def list_all_iff)
  then have "queue_ok (length (promises w)) (Suc ?s) (queues w ! k)"
    using k by (simp add: list_all_length)
  then have "queue_ok (length (promises w)) (Suc ?s)
      ((queues w ! k)\<lparr>postFlush := postFlush (queues w ! k) @ [?s]\<rparr>)"
    by (simp add: queue_ok_def)
  with q1 have q2: "list_all (queue_ok (length (promises w)) (Suc ?s))
      ((queues w)[k := (queues w ! k)\<lparr>postFlush := postFlush (queues w ! k) @ [?s]\<rparr>])"
    by (rule list_all_update)
  have p1: "list_all (promise_ok (Suc ?s)) (promises w)"
    using r promise_ok_mono [of ?s _ "Suc ?s"] by (simp add: refs_ok_def list_all_iff)
  have c1: "list_all (\<lambda>c. sub_of c < Suc ?s) (calls w)"
    using r by (auto simp: refs_ok_def list_all_iff)
  have r': "refs_ok ?w'"
    using r q2 p1 c1 q cb by (simp add: refs_ok_def)
  have fresh: "deliveries ?s (calls w) = []"
    using r by (intro deliveries_fresh [of ?s]) (simp_all add: refs_ok_def)
  have each: "sub_ok ?w' t" if t: "t < length (subs ?w')" for t
  proof (cases "t = ?s")
    case True
    show ?thesis
      using d by (simp add: True sub_ok_def Let_def deliveries_append fresh split: if_splits)
  next
    case False
    then have lt: "t < ?s" using t by simp
    then have old: "sub_ok w t" using ok by (simp add: subs_okD(2))
    have "deliveries t [cb] = []"
      using cb lt by (cases cb) (simp_all add: sub_of_def)
    then show ?thesis
      using old lt by (simp add: sub_ok_def Let_def deliveries_append nth_append)
  qed
  show ?thesis using r' each by (intro subs_okI) simp_all
qed

lemma results_errs: "results (q\<lparr>errs := e\<rparr>) = results q"
  by (rule results_cong) simp_all

lemma owner_errs: "owner (q\<lparr>errs := e\<rparr>) a = owner q a"
  by (simp add: owner_def split: option.splits)

lemma onSnapshot_eq:
  assumes "a < length (objs w)"
  shows "onSnapshot w a flag =
    (let err = (if truthy (js_prop (errs (deref w a)) ''onSnapshot'')
                then js_prop (errs (deref w a)) ''onSnapshot'' else JNull);
         w1 = store w a ((deref w a)\<lparr>errs := filter (\<lambda>e. fst e \<noteq> ''onSnapshot'') (errs (deref w a))\<rparr>);
         res = results (deref w a);
         s = length (subs w);
         k = queue (deref w a)
     in (w1\<lparr>subs := subs w1 @ [\<lparr>sub_query = a, sub_err = err, includeMetadataChanges = flag,
                                  context_data = res\<rparr>],
            calls := calls w1 @
              [if err = JNull
               then OnNext s (if lodash_size (data (deref w a)) \<noteq> 0
                              then QuerySnapshot (owner (deref w a) a) (Some res) (Some [])
                              else QuerySnapshot (owner (deref w a) a) None None)
               else OnError s err],
            queues := (queues w1)[k := (queues w1 ! k)
               \<lparr>postFlush := postFlush (queues w1 ! k) @ [length (subs w1)]\<rparr>]\<rparr>, s))"
  using assms
  by (simp add: onSnapshot_def nextErr_def Let_def deref_store results_errs owner_errs store_def)

lemma obj_queue_valid:
  "subs_ok w \<Longrightarrow> a < length (objs w) \<Longrightarrow> queue (deref w a) < length (queues w)"
  using subs_okD(1) [of w] by (simp add: refs_ok_def list_all_length obj_ok_def deref_def)

lemma onSnapshot_ok:
  assumes ok: "subs_ok w" and a: "a < length (objs w)"
  shows "subs_ok (fst (onSnapshot w a flag)) \<and> extends w (fst (onSnapshot w a flag))"
proof -
  define err where "err = (if truthy (js_prop (errs (deref w a)) ''onSnapshot'')
                then js_prop (errs (deref w a)) ''onSnapshot'' else JNull)"
  define cb where "cb = (if err = JNull
               then OnNext (length (subs w)) (if lodash_size (data (deref w a)) \<noteq> 0
                              then QuerySnapshot (owner (deref w a) a) (Some (results (deref w a))) (Some [])
                              else QuerySnapshot (owner (deref w a) a) None None)
               else OnError (length (subs w)) err)"
  let ?w1 = "store w a ((deref w a)\<lparr>errs := filter (\<lambda>e. fst e \<noteq> ''onSnapshot'') (errs (deref w a))\<rparr>)"
  let ?new = "\<lparr>sub_query = a, sub_err = err, includeMetadataChanges = flag,
               context_data = results (deref w a)\<rparr>"
  let ?k = "queue (deref w a)"
  let ?w3 = "?w1\<lparr>subs := subs ?w1 @ [?new], calls := calls ?w1 @ [cb],
            queues := (queues ?w1)[?k := (queues ?w1 ! ?k)
               \<lparr>postFlush := postFlush (queues ?w1 ! ?k) @ [length (subs ?w1)]\<rparr>]\<rparr>"
  have eq: "fst (onSnapshot w a flag) = ?w3"
    using a by (simp add: onSnapshot_eq Let_def err_def cb_def store_def)
  have ok1: "subs_ok ?w1" using ok a by (rule store_errs_ok)
  have k: "?k < length (queues ?w1)" using obj_queue_valid [OF ok a] by (simp add: store_def)
  have empty: "lodash_size (data (deref w a)) = 0 \<Longrightarrow> results (deref w a) = []"
    by (simp add: results_def)
  have d: "if sub_err ?new = JNull
           then deliveries (length (subs ?w1)) [cb] = [context_data ?new]
           else deliveries (length (subs ?w1)) [cb] = []"
    using empty by (simp add: cb_def delivered_def store_def)
  have "subs_ok ?w3"
    using ok1 k by (rule subscribe_ok) (use a d in \<open>simp_all add: store_def cb_def sub_of_def\<close>)
  moreover have "extends w ?w3"
    by (simp add: extends_def list_all_iff store_def nth_append)
  ultimately show ?thesis by (simp only: eq)
qed

lemma unsubscribe_ok:
  assumes "subs_ok w"
  shows "subs_ok (unsubscribe w s)"
proof -
  let ?k = "queue (deref w (sub_query (subs w ! s)))"
  let ?w' = "w\<lparr>queues := (queues w)[?k := (queues w ! ?k)
              \<lparr>postFlush := removeAll s (postFlush (queues w ! ?k))\<rparr>]\<rparr>"
  have r: "refs_ok w" using assms by (rule subs_okD(1))
  then have q: "list_all (queue_ok (length (promises w)) (length (subs w))) (queues w)"
    by (simp add: refs_ok_def)
  have "list_all (queue_ok (length (promises w)) (length (subs w))) (queues ?w')"
  proof (cases "?k < length (queues w)")
    case False
    then show ?thesis using q by (simp add: list_update_beyond)
  next
    case True
    then have "queue_ok (length (promises w)) (length (subs w)) (queues w ! ?k)"
      using q by (simp add: list_all_length)
    then have "queue_ok (length (promises w)) (length (subs w))
        ((queues w ! ?k)\<lparr>postFlush := removeAll s (postFlush (queues w ! ?k))\<rparr>)"
      by (auto simp: queue_ok_def list_all_iff)
    with q show ?thesis by (simp add: list_all_update)
  qed
  then have "refs_ok ?w'" using r by (simp add: refs_ok_def)
  with assms have "subs_ok ?w'" by (rule subs_ok_same) simp_all
  then show ?thesis by (simp add: unsubscribe_def Let_def)
qed

lemma where_world:
  "fst (where w a p operator v) = (fst (clone w a))\<lparr>console := console w @ [unsupported_where]\<rparr>
   \<or> (\<exists>d. fst (where w a p operator v)
         = store (fst (clone w a)) (length (objs w))
             (setData (deref (fst (clone w a)) (length (objs w))) d))"
  by (auto simp: where_eq Let_def clone_console)

lemma builder_ok:
  assumes "subs_ok w" "a < length (objs w)"
  shows "subs_ok (fst (where w a p operator v)) \<and> extends w (fst (where w a p operator v))"
    and "subs_ok (fst (orderBy w a p direction)) \<and> extends w (fst (orderBy w a p direction))"
    and "subs_ok (fst (limit w a n)) \<and> extends w (fst (limit w a n))"
    and "subs_ok (case startAfter w a doc of Inl e \<Rightarrow> w | Inr r \<Rightarrow> fst r)
         \<and> extends w (case startAfter w a doc of Inl e \<Rightarrow> w | Inr r \<Rightarrow> fst r)"
proof -
  have c: "subs_ok (fst (clone w a))" using assms by (rule clone_ok)
  have same: "calls (fst (clone w a)) = calls w" "subs (fst (clone w a)) = subs w"
    using clone_same [of w a] by simp_all
  show "subs_ok (fst (where w a p operator v)) \<and> extends w (fst (where w a p operator v))"
    using where_world [of w a p operator v]
  proof
    assume eq: "fst (where w a p operator v)
        = (fst (clone w a))\<lparr>console := console w @ [unsupported_where]\<rparr>"
    show ?thesis using c same by (simp add: eq console_ok extends_same)
  next
    assume "\<exists>d. fst (where w a p operator v)
         = store (fst (clone w a)) (length (objs w))
             (setData (deref (fst (clone w a)) (length (objs w))) d)"
    then obtain d where eq: "fst (where w a p operator v)
         = store (fst (clone w a)) (length (objs w))
             (setData (deref (fst (clone w a)) (length (objs w))) d)" by blast
    have "subs_ok (store (fst (clone w a)) (length (objs w))
             (setData (deref (fst (clone w a)) (length (objs w))) d))"
      using assms by (rule built_ok) (simp_all add: setData_def)
    then show ?thesis using same by (simp add: eq extends_same store_def)
  qed
  have "subs_ok (fst (orderBy w a p direction))"
    unfolding orderBy_eq fst_conv using assms by (rule built_ok) simp_all
  then show "subs_ok (fst (orderBy w a p direction)) \<and> extends w (fst (orderBy w a p direction))"
    using same by (simp add: orderBy_eq extends_same store_def)
  have "subs_ok (fst (limit w a n))"
    unfolding limit_eq fst_conv using assms by (rule built_ok) simp_all
  then show "subs_ok (fst (limit w a n)) \<and> extends w (fst (limit w a n))"
    using same by (simp add: limit_eq extends_same store_def)
  show "subs_ok (case startAfter w a doc of Inl e \<Rightarrow> w | Inr r \<Rightarrow> fst r)
         \<and> extends w (case startAfter w a doc of Inl e \<Rightarrow> w | Inr r \<Rightarrow> fst r)"
  proof (cases doc)
    case (NotASnapshot x)
    then show ?thesis using assms(1) by (simp add: startAfter_def console_ok extends_same)
  next
    case (DocumentSnapshot i)
    show ?thesis
    proof (cases "orderedProperties (deref w a) = []")
      case True
      then show ?thesis using assms(1) by (simp add: DocumentSnapshot startAfter_def extends_refl)
    next
      case False
      have "subs_ok (store (fst (clone w a)) (length (objs w))
              ((deref (fst (clone w a)) (length (objs w)))\<lparr>buildStartFinder := Some i\<rparr>))"
        using assms by (rule built_ok) simp_all
      then show ?thesis
        using same by (simp add: DocumentSnapshot startAfter_eq [OF False] extends_same store_def)
    qed
  qed
qed

lemma step_ok:
  assumes ok: "subs_ok w" and res: "step fuel c w = Some w'"
  shows "subs_ok w' \<and> extends w w'"
proof (cases c)
  case (Get a)
  then have a: "a < length (objs w)" and "map_option fst (get fuel w a) = Some w'"
    using res by (simp_all add: step_def valid_ref_def split: if_splits)
  then obtain p where g: "get_with (queue_flush fuel) w a None = Some (w', p)"
    by (auto simp: get_def)
  have pr: "promise_ok (length (subs w)) \<lparr>settled = None, then_sub = None\<rparr>"
    by (simp add: promise_ok_def)
  show ?thesis using queue_flush_ok ok a pr g by (rule get_with_ok)
next
  case (Flush a delay)
  then have a: "a < length (objs w)"
    and f: "queue_flush fuel w (queue (deref w a)) (case delay of None \<Rightarrow> DelayTrue | Some d \<Rightarrow> d) = Some w'"
    using res by (simp_all add: step_def valid_ref_def flush_def split: if_splits)
  show ?thesis using ok obj_queue_valid [OF ok a] f by (rule queue_flush_ok)
next
  case (Subscribe a flag)
  then have a: "a < length (objs w)" and "w' = fst (onSnapshot w a flag)"
    using res by (simp_all add: step_def valid_ref_def split: if_splits)
  then show ?thesis using onSnapshot_ok [OF ok a] by simp
next
  case (Unsubscribe s)
  then have "w' = unsubscribe w s" using res by (simp add: step_def split: if_splits)
  then show ?thesis
    using unsubscribe_ok [OF ok] by (simp add: extends_same unsubscribe_def Let_def)
next
  case (SetData a d)
  then have a: "a < length (objs w)" and w': "w' = store w a (setData (deref w a) d)"
    using res by (simp_all add: step_def valid_ref_def split: if_splits)
  have "subs_ok (store w a (setData (deref w a) d))"
    using ok a by (rule store_same_ok) (simp_all add: setData_def)
  then show ?thesis by (simp add: w' extends_same store_def)
next
  case (AutoFlush a delay)
  then have "autoFlush_rec fuel w a (case delay of None \<Rightarrow> DelayTrue | Some d \<Rightarrow> d) = Some w'"
    using res by (simp add: step_def autoFlush_def split: if_splits)
  then have o: "only_flags (case delay of None \<Rightarrow> DelayTrue | Some d \<Rightarrow> d) w w'"
    by (rule autoFlush_rec_only_flags)
  then have "w' = w\<lparr>objs := objs w'\<rparr>" by (simp add: only_flags_def)
  then have "calls w' = calls w" "subs w' = subs w" by (metis world.select_convs world.surjective world.update_convs)+
  then show ?thesis using only_flags_ok [OF ok o] by (simp add: extends_same)
next
  case (Where a p operator v)
  then have a: "a < length (objs w)" and w': "w' = fst (where w a p operator v)"
    using res by (simp_all add: step_def valid_ref_def split: if_splits)
  show ?thesis using builder_ok(1) [OF ok a] by (simp add: w')
next
  case (OrderBy a p direction)
  then have a: "a < length (objs w)" and w': "w' = fst (orderBy w a p direction)"
    using res by (simp_all add: step_def valid_ref_def split: if_splits)
  show ?thesis using builder_ok(2) [OF ok a] by (simp add: w')
next
  case (Limit a n)
  then have a: "a < length (objs w)" and w': "w' = fst (limit w a n)"
    using res by (simp_all add: step_def valid_ref_def split: if_splits)
  show ?thesis using builder_ok(3) [OF ok a] by (simp add: w')
next
  case (StartAfter a doc)
  then have a: "a < length (objs w)"
    and w': "w' = (case startAfter w a doc of Inl e \<Rightarrow> w | Inr r \<Rightarrow> fst r)"
    using res by (auto simp: step_def valid_ref_def split: if_splits sum.splits)
  show ?thesis using builder_ok(4) [OF ok a] by (simp add: w')
qed

lemma run_ok:
  assumes "subs_ok w" "run fuel cs w = Some w'"
  shows "subs_ok w' \<and> extends w w'"
proof (rule thread_ok [where w = w and f = "step fuel" and xs = cs])
  show "subs_ok w" by fact
  show "extends w w" by (rule extends_refl)
  show "thread (step fuel) cs w = Some w'" using assms(2) by (simp add: run_def)
next
  fix c w0 w0'
  assume "subs_ok w0" "step fuel c w0 = Some w0'"
  then show "subs_ok w0' \<and> extends w0 w0'" by (rule step_ok)
qed





subsection \<open>Runs as sequences of events\<close>


















text \<open>
  The stores a test can build are in order: the empty store is, and the constructor, given
  a parent that exists, and every event keep a store so.
\<close>

lemma empty_world_ok: "subs_ok empty_world"
  by (simp add: empty_world_def subs_ok_def refs_ok_def)

lemma construct_ok:
  assumes "subs_ok w" and "case par of None \<Rightarrow> True | Some pa \<Rightarrow> pa < length (objs w)"
  shows "subs_ok (fst (MockFirestoreQuery w p d par name))"
proof -
  let ?n = "length (objs w)" and ?m = "length (queues w)"
  have r: "refs_ok w" using assms(1) by (rule subs_okD(1))
  then have all: "list_all (obj_ok ?n ?m) (objs w)" by (simp add: refs_ok_def)
  have all': "list_all (obj_ok (Suc ?n) (Suc ?m)) (objs w)"
    using all obj_ok_mono [of ?n ?m _ "Suc ?n" "Suc ?m"] by (simp add: list_all_iff)
  have all'': "list_all (obj_ok (Suc ?n) ?m) (objs w)"
    using all obj_ok_mono [of ?n ?m _ "Suc ?n" ?m] by (simp add: list_all_iff)
  have subq: "list_all (\<lambda>sub. sub_query sub < Suc ?n) (subs w)"
    using r by (auto simp: refs_ok_def list_all_iff)
  show ?thesis
  proof (cases par)
    case None
    have "refs_ok (fst (MockFirestoreQuery w p d par name))"
      using r all' subq None
      by (simp add: MockFirestoreQuery_def Let_def setData_def refs_ok_def obj_ok_def queue_ok_def)
    with assms(1) show ?thesis
      by (rule subs_ok_same) (simp_all add: MockFirestoreQuery_def Let_def None)
  next
    case (Some pa)
    then have "pa < ?n" using assms(2) by simp
    then have "obj_ok ?n ?m (objs w ! pa)" using all by (simp add: list_all_length)
    then have "queue (deref w pa) < ?m" by (simp add: obj_ok_def deref_def)
    then have "refs_ok (fst (MockFirestoreQuery w p d par name))"
      using r all'' subq Some \<open>pa < ?n\<close>
      by (simp add: MockFirestoreQuery_def Let_def setData_def refs_ok_def obj_ok_def)
    with assms(1) show ?thesis
      by (rule subs_ok_same) (simp_all add: MockFirestoreQuery_def Let_def Some)
  qed
qed




lemmas run_defs =
  run_def step_def valid_ref_def flush_def get_def get_with_def defer_with_def nextErr_def truthy_def
  js_prop_def
  flush_step_def listener_def run_task_def refresh_def owner_def
  store_def deref_def Let_def setData_def cleanFirestoreData_def lodash_size_def
  results_def traversal_def records_def visit_def inRange_def startFinder_def start_walk_def
  cloneDeepWith_def js_set_def is_array_index_def is_digit_def delivered_def

lemma erring_world_eq:
  "erring_world =
     \<lparr>objs = [\<lparr>errs = [(''get'', get_failure), (''onSnapshot'', snapshot_failure)],
               path = ''rooms'', ident = None, flushDelay = DelayFalse, queue = 0,
               parent = None, firestore = None, children = [], orderedProperties = [],
               orderedDirections = [], limited = 0, buildStartFinder = None,
               data = Some sample_data\<rparr>],
      queues = [\<lparr>events = [], postFlush = []\<rparr>], promises = [], subs = [], console = [],
      calls = []\<rparr>"
  by (simp add: erring_world_def sample_world_eq store_def deref_def)


lemmas event_defs =
  trace_def fire_def ask_def settle_task_def registered_def awaited_def pending_def


text \<open>
  A flush that the queue carries out inside the call that asks for it, as the runs of a
  store have it, is one of these sequences. On the sample store with a subscription, two
  calls of \<open>flush\<close> after a change of the data leave the callbacks, the subscriptions, the
  objects and the queues that the events below leave.
\<close>

lemma flush_as_events:
  "(case run (Suc (Suc 0)) [SetData 0 (Some changed_data), Flush 0 None, Flush 0 None]
           (fst (onSnapshot sample_world 0 False)) of
      None \<Rightarrow> None
    | Some w2 \<Rightarrow> Some (calls w2, subs w2, objs w2, queues w2))
   = (case trace 0 [Call (SetData 0 (Some changed_data)),
                    Call (Flush 0 None), QueueFlush 0, AfterFlush 0,
                    Call (Flush 0 None), QueueFlush 0, Then 0, AfterFlush 0]
           (fst (onSnapshot sample_world 0 False)) of
      None \<Rightarrow> None
    | Some w2 \<Rightarrow> Some (calls w2, subs w2, objs w2, queues w2))"
  by (simp add: sample_world_eq onSnapshot_def run_defs event_defs sample_data_def changed_data_def)


subsection \<open>Injected errors\<close>

lemma erring_subscribed:
  "onSnapshot erring_world 0 False =
     (\<lparr>objs = [\<lparr>errs = [(''get'', get_failure)],
               path = ''rooms'', ident = None, flushDelay = DelayFalse, queue = 0,
               parent = None, firestore = None, children = [], orderedProperties = [],
               orderedDirections = [], limited = 0, buildStartFinder = None,
               data = Some sample_data\<rparr>],
      queues = [\<lparr>events = [], postFlush = [0]\<rparr>], promises = [],
      subs = [\<lparr>sub_query = 0, sub_err = snapshot_failure, includeMetadataChanges = False,
               context_data = sample_data\<rparr>],
      console = [], calls = [OnError 0 snapshot_failure]\<rparr>, 0)"
  by (simp add: erring_world_eq onSnapshot_def run_defs snapshot_failure_def get_failure_def
      sample_data_def)

text \<open>
  C3, at the failing input. With an error registered for \<open>get\<close> and one for \<open>onSnapshot\<close>:
  \<open>onSnapshot\<close> invokes the error callback and clears the registered error, so that a second
  \<open>onSnapshot\<close> invokes its next-callback; the first \<open>get\<close> is rejected at the flush and the
  second is resolved. But the handler the first \<open>onSnapshot\<close> registered invokes the error
  callback again after every flush: after one flush the error has been delivered twice,
  after two three times.
\<close>

theorem onSnapshot_error_repeats:
  "(case onSnapshot erring_world 0 False of (w1, s) \<Rightarrow>
      calls w1 = [OnError s snapshot_failure]
    \<and> errs (deref w1 0) = [(''get'', get_failure)]
    \<and> (case onSnapshot w1 0 False of (w2, s2) \<Rightarrow>
          calls w2 = [OnError s snapshot_failure,
                      OnNext s2 (QuerySnapshot (Self 0) (Some sample_data) (Some []))])
    \<and> (case run (Suc (Suc 0)) [Get 0, Flush 0 None] w1 of
          None \<Rightarrow> False
        | Some w2 \<Rightarrow>
            calls w2 = [OnError s snapshot_failure, OnError s snapshot_failure]
            \<and> map settled (promises w2) = [Some (Rejected get_failure)]
            \<and> errs (deref w2 0) = [])
    \<and> (case run (Suc (Suc 0)) [Get 0, Flush 0 None, Get 0, Flush 0 None] w1 of
          None \<Rightarrow> False
        | Some w2 \<Rightarrow>
            calls w2 = [OnError s snapshot_failure, OnError s snapshot_failure,
                        OnError s snapshot_failure]
            \<and> map settled (promises w2)
                = [Some (Rejected get_failure),
                   Some (Resolved (QuerySnapshot (Self 0) (Some sample_data) None))]))"
proof -
  let ?w1 = "\<lparr>objs = [\<lparr>errs = [(''get'', get_failure)],
               path = ''rooms'', ident = None, flushDelay = DelayFalse, queue = 0,
               parent = None, firestore = None, children = [], orderedProperties = [],
               orderedDirections = [], limited = 0, buildStartFinder = None,
               data = Some sample_data\<rparr>],
      queues = [\<lparr>events = [], postFlush = [0]\<rparr>], promises = [],
      subs = [\<lparr>sub_query = 0, sub_err = snapshot_failure, includeMetadataChanges = False,
               context_data = sample_data\<rparr>],
      console = [], calls = [OnError 0 snapshot_failure]\<rparr>"
  have ne: "snapshot_failure \<noteq> JNull" "get_failure \<noteq> JNull" "truthy get_failure"
    by (simp_all add: snapshot_failure_def get_failure_def truthy_def)
  have c1: "errs (deref ?w1 0) = [(''get'', get_failure)]" by (simp add: deref_def)
  have c2: "case onSnapshot ?w1 0 False of (w2, s2) \<Rightarrow>
          calls w2 = [OnError 0 snapshot_failure,
                      OnNext s2 (QuerySnapshot (Self 0) (Some sample_data) (Some []))]"
    by (simp add: onSnapshot_def run_defs sample_data_def)
  have g1: "step (Suc (Suc 0)) (Get 0) ?w1 = Some (?w1
      \<lparr>objs := [(objs ?w1 ! 0)\<lparr>errs := []\<rparr>],
       promises := [\<lparr>settled = None, then_sub = None\<rparr>],
       queues := [\<lparr>events = [GetTask 0 get_failure 0], postFlush = [0]\<rparr>]\<rparr>)"
    using ne by (simp add: run_defs)
  have f1: "step (Suc (Suc 0)) (Flush 0 None) (?w1
      \<lparr>objs := [(objs ?w1 ! 0)\<lparr>errs := []\<rparr>],
       promises := [\<lparr>settled = None, then_sub = None\<rparr>],
       queues := [\<lparr>events = [GetTask 0 get_failure 0], postFlush = [0]\<rparr>]\<rparr>)
     = Some (?w1
      \<lparr>objs := [(objs ?w1 ! 0)\<lparr>errs := []\<rparr>],
       promises := [\<lparr>settled = Some (Rejected get_failure), then_sub = None\<rparr>],
       queues := [\<lparr>events = [], postFlush = [0]\<rparr>],
       calls := [OnError 0 snapshot_failure, OnError 0 snapshot_failure]\<rparr>)"
    using ne by (simp add: run_defs)
  have g2: "step (Suc (Suc 0)) (Get 0) (?w1
      \<lparr>objs := [(objs ?w1 ! 0)\<lparr>errs := []\<rparr>],
       promises := [\<lparr>settled = Some (Rejected get_failure), then_sub = None\<rparr>],
       queues := [\<lparr>events = [], postFlush = [0]\<rparr>],
       calls := [OnError 0 snapshot_failure, OnError 0 snapshot_failure]\<rparr>)
     = Some (?w1
      \<lparr>objs := [(objs ?w1 ! 0)\<lparr>errs := []\<rparr>],
       promises := [\<lparr>settled = Some (Rejected get_failure), then_sub = None\<rparr>,
                    \<lparr>settled = None, then_sub = None\<rparr>],
       queues := [\<lparr>events = [GetTask 0 JNull 1], postFlush = [0]\<rparr>],
       calls := [OnError 0 snapshot_failure, OnError 0 snapshot_failure]\<rparr>)"
    using ne by (simp add: run_defs)
  have f2: "step (Suc (Suc 0)) (Flush 0 None) (?w1
      \<lparr>objs := [(objs ?w1 ! 0)\<lparr>errs := []\<rparr>],
       promises := [\<lparr>settled = Some (Rejected get_failure), then_sub = None\<rparr>,
                    \<lparr>settled = None, then_sub = None\<rparr>],
       queues := [\<lparr>events = [GetTask 0 JNull 1], postFlush = [0]\<rparr>],
       calls := [OnError 0 snapshot_failure, OnError 0 snapshot_failure]\<rparr>)
     = Some (?w1
      \<lparr>objs := [(objs ?w1 ! 0)\<lparr>errs := []\<rparr>],
       promises := [\<lparr>settled = Some (Rejected get_failure), then_sub = None\<rparr>,
                    \<lparr>settled = Some (Resolved (QuerySnapshot (Self 0) (Some sample_data) None)),
                     then_sub = None\<rparr>],
       queues := [\<lparr>events = [], postFlush = [0]\<rparr>],
       calls := [OnError 0 snapshot_failure, OnError 0 snapshot_failure,
                 OnError 0 snapshot_failure]\<rparr>)"
    using ne by (simp add: run_defs sample_data_def)
  have r3: "run (Suc (Suc 0)) [Get 0, Flush 0 None] ?w1 = Some (?w1
      \<lparr>objs := [(objs ?w1 ! 0)\<lparr>errs := []\<rparr>],
       promises := [\<lparr>settled = Some (Rejected get_failure), then_sub = None\<rparr>],
       queues := [\<lparr>events = [], postFlush = [0]\<rparr>],
       calls := [OnError 0 snapshot_failure, OnError 0 snapshot_failure]\<rparr>)"
    by (simp only: run_def thread.simps g1 f1 option.case)
  have c3: "case run (Suc (Suc 0)) [Get 0, Flush 0 None] ?w1 of
          None \<Rightarrow> False
        | Some w2 \<Rightarrow>
            calls w2 = [OnError 0 snapshot_failure, OnError 0 snapshot_failure]
            \<and> map settled (promises w2) = [Some (Rejected get_failure)]
            \<and> errs (deref w2 0) = []"
    unfolding r3 by (simp add: deref_def)
  have r4: "run (Suc (Suc 0)) [Get 0, Flush 0 None, Get 0, Flush 0 None] ?w1 = Some (?w1
      \<lparr>objs := [(objs ?w1 ! 0)\<lparr>errs := []\<rparr>],
       promises := [\<lparr>settled = Some (Rejected get_failure), then_sub = None\<rparr>,
                    \<lparr>settled = Some (Resolved (QuerySnapshot (Self 0) (Some sample_data) None)),
                     then_sub = None\<rparr>],
       queues := [\<lparr>events = [], postFlush = [0]\<rparr>],
       calls := [OnError 0 snapshot_failure, OnError 0 snapshot_failure,
                 OnError 0 snapshot_failure]\<rparr>)"
    by (simp only: run_def thread.simps g1 f1 g2 f2 option.case)
  have c4: "case run (Suc (Suc 0)) [Get 0, Flush 0 None, Get 0, Flush 0 None] ?w1 of
          None \<Rightarrow> False
        | Some w2 \<Rightarrow>
            calls w2 = [OnError 0 snapshot_failure, OnError 0 snapshot_failure,
                        OnError 0 snapshot_failure]
            \<and> map settled (promises w2)
                = [Some (Rejected get_failure),
                   Some (Resolved (QuerySnapshot (Self 0) (Some sample_data) None))]"
    unfolding r4 by simp
  show ?thesis
    unfolding erring_subscribed prod.case using c1 c2 c3 c4 by (intro conjI) simp_all
qed

subsection \<open>The sort of the walk\<close>

lemma filter_insert_by:
  assumes "\<And>y. y \<in> set ys \<Longrightarrow> P y \<Longrightarrow> cmp x y \<le> 0" and "P x"
  shows "filter P (insert_by cmp x ys) = x # filter P ys"
  using assms by (induction ys) auto

lemma filter_insert_by_other: "\<not> P x \<Longrightarrow> filter P (insert_by cmp x ys) = filter P ys"
  by (induction ys) auto

text \<open>
  The sort is stable: records that the comparison takes for equal to one another keep the
  order they had.
\<close>

lemma stable_sort_by_stable:
  assumes "\<And>x y. x \<in> set xs \<Longrightarrow> y \<in> set xs \<Longrightarrow> P x \<Longrightarrow> P y \<Longrightarrow> cmp x y \<le> 0"
  shows "filter P (stable_sort_by cmp xs) = filter P xs"
  using assms
proof (induction xs)
  case Nil
  then show ?case by (simp add: stable_sort_by_def)
next
  case (Cons x xs)
  have s: "stable_sort_by cmp (x # xs) = insert_by cmp x (stable_sort_by cmp xs)"
    by (simp add: stable_sort_by_def)
  have ih: "filter P (stable_sort_by cmp xs) = filter P xs"
    using Cons.prems by (intro Cons.IH) auto
  show ?case
  proof (cases "P x")
    case False
    then show ?thesis by (simp add: s filter_insert_by_other ih)
  next
    case True
    have "filter P (insert_by cmp x (stable_sort_by cmp xs)) = x # filter P (stable_sort_by cmp xs)"
      using True Cons.prems by (intro filter_insert_by) (auto simp: set_stable_sort_by)
    then show ?thesis using True by (simp add: s ih)
  qed
qed

lemma traversal_stable:
  assumes "\<And>x y. x \<in> set (records q) \<Longrightarrow> y \<in> set (records q) \<Longrightarrow> P x \<Longrightarrow> P y \<Longrightarrow>
      compareMultiple (criteria (map getPropertyPath (orderedProperties q)) x)
        (criteria (map getPropertyPath (orderedProperties q)) y) (orderedDirections q) = 0"
  shows "filter P (traversal q) = filter P (records q)"
proof (cases "length (orderedProperties q) = 0")
  case True
  then show ?thesis by (simp add: traversal_def)
next
  case False
  have "filter P (lodash_orderBy (records q) (map getPropertyPath (orderedProperties q))
           (orderedDirections q)) = filter P (records q)"
    unfolding lodash_orderBy_def
    by (rule stable_sort_by_stable) (simp add: assms)
  then show ?thesis using False by (simp add: traversal_def)
qed

end
